theory Spec2Isabelle
  imports Main
begin

section \<open>MTFIFO: a polling worker pool over a FIFO queue\<close>

text \<open>
  The development embeds \<^verbatim>\<open>src/mtfifo.py\<close>. The class \<^verbatim>\<open>MTFIFO\<close> becomes a record of
  its attributes, its methods become functions on that record, and the Python threads it
  starts (the dispatcher loop, one worker per dispatched request, a caller inside
  \<^verbatim>\<open>Stop\<close>) become thread-local program counters stepped one atomic action at a time
  by an explicit schedule.
\<close>

subsection \<open>Values, exceptions, requests\<close>

text \<open>Opaque Python payloads and results.\<close>

datatype pyval = PNone | PInt int | PStr string | PDict "(string \<times> pyval) list"

text \<open>Python truthiness, as \<^verbatim>\<open>if r and ...\<close> tests it.\<close>

fun truthy :: "pyval \<Rightarrow> bool" where
  "truthy PNone = False"
| "truthy (PInt n) = (n \<noteq> 0)"
| "truthy (PStr s) = (s \<noteq> [])"
| "truthy (PDict kv) = (kv \<noteq> [])"

text \<open>
  What a call can raise: an instance of \<^verbatim>\<open>Exception\<close> (what \<^verbatim>\<open>except Exception\<close>
  catches) or of \<^verbatim>\<open>BaseException\<close> only (\<^verbatim>\<open>SystemExit\<close>, \<^verbatim>\<open>KeyboardInterrupt\<close>).
\<close>

datatype exn = Exc string | BaseExc string

datatype outcome = Returned pyval | Raised exn

text \<open>The value under a request's \<^verbatim>\<open>'func'\<close> key: a callable or any other object
  (\<^verbatim>\<open>r.get('func')\<close> is \<^verbatim>\<open>None\<close> when the key is missing).\<close>

datatype fobj = Fn "pyval \<Rightarrow> outcome" | NotFn pyval

fun callable_f :: "fobj \<Rightarrow> bool" where
  "callable_f (Fn f) = True"
| "callable_f (NotFn v) = False"

text \<open>A request dict \<^verbatim>\<open>{'params': any, 'func': callable}\<close>.\<close>

record request =
  params :: pyval
  func :: fobj

text \<open>An element of \<^verbatim>\<open>THREADS\<close>: a handler taking the request, or some other object.\<close>

datatype tobj = Handler "request \<Rightarrow> outcome" | NotHandler pyval

fun callable_t :: "tobj \<Rightarrow> bool" where
  "callable_t (Handler h) = True"
| "callable_t (NotHandler v) = False"

text \<open>An entry of \<^verbatim>\<open>BUSY_THREADS\<close>: \<^verbatim>\<open>{'index': int, 'request': dict}\<close>.\<close>

record busy =
  index :: nat
  request :: request

text \<open>The argument of the error callback: \<^verbatim>\<open>{'req': request, 'error': e}\<close>.\<close>

record err_response =
  req :: request
  error :: exn

text \<open>Exceptions that the pool's own methods raise to their caller.\<close>

datatype py_error = ValueError string | AttributeError string

subsection \<open>Threads and the trace of observable events\<close>

text \<open>The program counter of a thread inside \<^verbatim>\<open>Stop\<close>.\<close>

datatype spc = SBegin | SAlive | SJoin nat | SClear | SDone

text \<open>The program counter of \<^verbatim>\<open>dispatcher_loop\<close>: at the \<^verbatim>\<open>while\<close> test; asleep
  before \<^verbatim>\<open>get_free_threads\<close>; at the \<^verbatim>\<open>if ... continue\<close> with the list it read; at
  the head of the \<^verbatim>\<open>for\<close> loop with the slots still to visit; inside
  \<^verbatim>\<open>self.UNHANDLED.get()\<close> for a slot; about to call \<^verbatim>\<open>handle_request\<close> with the
  request it got.\<close>

datatype dpc =
    DLoop | DPoll | DCheck "nat list" | DFor "nat list" | DGet nat "nat list"
  | DHandle request nat "nat list"

text \<open>The program counter of \<^verbatim>\<open>worker\<close> (inside \<^verbatim>\<open>handle_request\<close>).\<close>

datatype wpc =
    WCall | WSuccessCb pyval | WErrorCb exn | WFree | WCheck | WStop spc | WEnd

datatype thread =
    Dispatcher dpc
  | Worker nat request wpc
  | Caller spc
  | Exited

datatype event =
    Dispatched nat request
  | Executed nat request
  | Success pyval
  | Error err_response
  | Freed nat
  | DrainChecked bool
  | Ended

subsection \<open>The pool\<close>

text \<open>
  The attributes of \<^verbatim>\<open>MTFIFO\<close>. A callback is modelled by what it does to its caller:
  it returns (\<open>None\<close>) or raises; the callbacks are any values of these fields, and
  \<^verbatim>\<open>on\<close>, which replaces them, is not among the calls modelled. Handlers and callbacks do
  not call back into the pool. \<open>threads\<close> holds the Python threads started so far,
  a thread's identifier being its position; \<open>trace\<close> records the calls made to handlers and
  callbacks and the changes of the busy list, in the order they happen, each with the
  identifier of the worker thread of the task it belongs to.
\<close>

record pool =
  THREADS :: "tobj list"
  thread_count :: nat
  BUSY_THREADS :: "busy list"
  UNHANDLED :: "request list"
  request_success_callback :: "pyval \<Rightarrow> exn option"
  request_error_callback :: "err_response \<Rightarrow> exn option"
  request_END_callback :: "exn option"
  running :: bool
  dispatcher_thread :: "nat option"
  threads :: "thread list"
  trace :: "(nat \<times> event) list"

text \<open>The state \<^verbatim>\<open>__init__\<close> builds from the list under \<^verbatim>\<open>'THREADS'\<close>; the default
  callbacks print and return.\<close>

definition new_pool :: "tobj list \<Rightarrow> pool" where
  "new_pool ths =
     \<lparr> THREADS = ths, thread_count = length ths, BUSY_THREADS = [], UNHANDLED = [],
       request_success_callback = (\<lambda>response. None),
       request_error_callback = (\<lambda>response. None),
       request_END_callback = None,
       running = False, dispatcher_thread = None, threads = [], trace = [] \<rparr>"

text \<open>\<^verbatim>\<open>__init__(options)\<close>: the options dict is an association list.\<close>

definition init :: "(string \<times> tobj list) list \<Rightarrow> py_error + pool" where
  "init options =
     (case map_of options ''THREADS'' of
        None \<Rightarrow> Inl (ValueError ''THREADS param must be defined'')
      | Some ths \<Rightarrow> Inr (new_pool ths))"

subsection \<open>add_threads\<close>

text \<open>An argument that is one object or a list of objects.\<close>

datatype 'a arg = One 'a | Many "'a list"

fun as_list :: "'a arg \<Rightarrow> 'a list" where
  "as_list (One x) = [x]"
| "as_list (Many xs) = xs"

text \<open>
  \<^verbatim>\<open>for t in Threads: if t and callable(t): self.THREADS.put(t)\<close>. \<^verbatim>\<open>THREADS\<close> is the
  list given to the constructor, and a list has no \<^verbatim>\<open>put\<close>: the first callable raises.
\<close>

fun add_threads_loop :: "tobj list \<Rightarrow> pool \<Rightarrow> py_error option \<times> pool" where
  "add_threads_loop [] s = (None, s)"
| "add_threads_loop (t # ts) s =
     (if callable_t t
      then (Some (AttributeError ''list object has no attribute put''), s)
      else add_threads_loop ts s)"

definition add_threads :: "tobj arg \<Rightarrow> pool \<Rightarrow> py_error option \<times> pool" where
  "add_threads Threads s = add_threads_loop (as_list Threads) s"

subsection \<open>get_free_threads, Start, add_requests\<close>

definition get_free_threads :: "pool \<Rightarrow> nat list" where
  "get_free_threads s =
     (let busy_indices = map index (BUSY_THREADS s)
      in filter (\<lambda>i. i \<notin> set busy_indices) [0..<thread_count s])"

text \<open>\<^verbatim>\<open>Start\<close>: the new dispatcher thread begins at its \<^verbatim>\<open>while self.running\<close> test.\<close>

definition Start :: "pool \<Rightarrow> pool" where
  "Start s =
     (if running s then s
      else s\<lparr> running := True,
              threads := threads s @ [Dispatcher DLoop],
              dispatcher_thread := Some (length (threads s)) \<rparr>)"

text \<open>An object submitted to \<^verbatim>\<open>add_requests\<close>: a request dict, or something else. (The
  empty dict, which is falsy, is the request with no callable under \<^verbatim>\<open>'func'\<close>: both are
  skipped.)\<close>

datatype item = Dict request | Obj pyval

text \<open>
  \<^verbatim>\<open>for r in reqs: if r and callable(r.get('func')): self.UNHANDLED.put(r)\<close>. A falsy
  object is skipped by the \<^verbatim>\<open>and\<close>; a dict without a callable under \<^verbatim>\<open>'func'\<close> is
  skipped; a truthy object with no \<^verbatim>\<open>get\<close> raises, the requests put before it staying.
\<close>

fun add_requests_loop :: "item list \<Rightarrow> pool \<Rightarrow> py_error option \<times> pool" where
  "add_requests_loop [] s = (None, s)"
| "add_requests_loop (Dict r # rs) s =
     (if callable_f (func r)
      then add_requests_loop rs (s\<lparr> UNHANDLED := UNHANDLED s @ [r] \<rparr>)
      else add_requests_loop rs s)"
| "add_requests_loop (Obj v # rs) s =
     (if \<not> truthy v then add_requests_loop rs s
      else (case v of
              PDict kv \<Rightarrow> add_requests_loop rs s
            | _ \<Rightarrow> (Some (AttributeError ''object has no attribute get''), s)))"

definition add_requests :: "item arg \<Rightarrow> pool \<Rightarrow> py_error option \<times> pool" where
  "add_requests reqs s =
     (case add_requests_loop (as_list reqs) s of
        (Some e, s') \<Rightarrow> (Some e, s')
      | (None, s') \<Rightarrow> (None, if \<not> running s' then Start s' else s'))"

subsection \<open>handle_request and the dispatcher loop\<close>

definition set_thread :: "nat \<Rightarrow> thread \<Rightarrow> pool \<Rightarrow> pool" where
  "set_thread t th s = s\<lparr> threads := (threads s)[t := th] \<rparr>"

definition emit :: "nat \<Rightarrow> event \<Rightarrow> pool \<Rightarrow> pool" where
  "emit t e s = s\<lparr> trace := trace s @ [(t, e)] \<rparr>"

text \<open>
  \<^verbatim>\<open>handle_request(request, thread_idx)\<close>: append the busy entry under the lock, then
  start a thread running \<^verbatim>\<open>worker\<close>, whose identifier is the next position of \<open>threads\<close>
  (one action: the worker cannot move before it is started).
\<close>

definition handle_request :: "request \<Rightarrow> nat \<Rightarrow> pool \<Rightarrow> pool" where
  "handle_request r thread_idx s =
     s\<lparr> BUSY_THREADS := BUSY_THREADS s @ [\<lparr> index = thread_idx, request = r \<rparr>],
        threads := threads s @ [Worker thread_idx r WCall],
        trace := trace s @ [(length (threads s), Dispatched thread_idx r)] \<rparr>"

text \<open>
  One atomic action of the dispatcher thread \<open>t\<close>:
  \<^item> the \<^verbatim>\<open>while self.running\<close> test;
  \<^item> the sleep and \<^verbatim>\<open>free_threads = self.get_free_threads()\<close>;
  \<^item> \<^verbatim>\<open>if not free_threads or self.UNHANDLED.empty(): continue\<close>;
  \<^item> the next round of \<^verbatim>\<open>for idx in free_threads\<close> with its
    \<^verbatim>\<open>if self.UNHANDLED.empty(): break\<close>;
  \<^item> \<^verbatim>\<open>request = self.UNHANDLED.get()\<close>, which takes the head of the queue and waits
    while the queue is empty;
  \<^item> \<^verbatim>\<open>self.handle_request(request, idx)\<close>.
\<close>

fun dispatcher_step :: "nat \<Rightarrow> dpc \<Rightarrow> pool \<Rightarrow> pool" where
  "dispatcher_step t DLoop s =
     (if running s then set_thread t (Dispatcher DPoll) s else set_thread t Exited s)"
| "dispatcher_step t DPoll s = set_thread t (Dispatcher (DCheck (get_free_threads s))) s"
| "dispatcher_step t (DCheck free_threads) s =
     (if free_threads = [] \<or> UNHANDLED s = [] then set_thread t (Dispatcher DLoop) s
      else set_thread t (Dispatcher (DFor free_threads)) s)"
| "dispatcher_step t (DFor []) s = set_thread t (Dispatcher DLoop) s"
| "dispatcher_step t (DFor (idx # rest)) s =
     (if UNHANDLED s = [] then set_thread t (Dispatcher DLoop) s
      else set_thread t (Dispatcher (DGet idx rest)) s)"
| "dispatcher_step t (DGet idx rest) s =
     (case UNHANDLED s of
        [] \<Rightarrow> s
      | r # q \<Rightarrow> set_thread t (Dispatcher (DHandle r idx rest)) (s\<lparr> UNHANDLED := q \<rparr>))"
| "dispatcher_step t (DHandle r idx rest) s =
     set_thread t (Dispatcher (DFor rest)) (handle_request r idx s)"

subsection \<open>Stop\<close>

fun exited :: "thread \<Rightarrow> bool" where
  "exited Exited = True"
| "exited (Dispatcher pc) = False"
| "exited (Worker idx r pc) = False"
| "exited (Caller pc) = False"

definition is_alive :: "pool \<Rightarrow> nat \<Rightarrow> bool" where
  "is_alive s t = (t < length (threads s) \<and> \<not> exited (threads s ! t))"

text \<open>
  \<^verbatim>\<open>Stop\<close>, one action at a time: test and clear \<^verbatim>\<open>running\<close>; test the dispatcher
  thread; \<^verbatim>\<open>join\<close> it, which waits while it is alive; clear \<^verbatim>\<open>dispatcher_thread\<close>.
\<close>

fun Stop_step :: "spc \<Rightarrow> pool \<Rightarrow> spc \<times> pool" where
  "Stop_step SBegin s = (if running s then (SAlive, s\<lparr> running := False \<rparr>) else (SDone, s))"
| "Stop_step SAlive s =
     (case dispatcher_thread s of
        None \<Rightarrow> (SClear, s)
      | Some d \<Rightarrow> if is_alive s d then (SJoin d, s) else (SClear, s))"
| "Stop_step (SJoin d) s = (if is_alive s d then (SJoin d, s) else (SClear, s))"
| "Stop_step SClear s = (SDone, s\<lparr> dispatcher_thread := None \<rparr>)"
| "Stop_step SDone s = (SDone, s)"

text \<open>The \<^verbatim>\<open>timeout=1.0\<close> of the join running out.\<close>

fun join_timeout :: "spc \<Rightarrow> spc" where
  "join_timeout (SJoin d) = SClear"
| "join_timeout SBegin = SBegin"
| "join_timeout SAlive = SAlive"
| "join_timeout SClear = SClear"
| "join_timeout SDone = SDone"

fun stop_done :: "spc \<Rightarrow> bool" where
  "stop_done SDone = True"
| "stop_done SBegin = False"
| "stop_done SAlive = False"
| "stop_done (SJoin d) = False"
| "stop_done SClear = False"

subsection \<open>worker and checkIfDone\<close>

text \<open>\<^verbatim>\<open>self.THREADS[thread_idx](request)\<close>\<close>

definition call_handler :: "tobj list \<Rightarrow> nat \<Rightarrow> request \<Rightarrow> outcome" where
  "call_handler ths thread_idx r =
     (if thread_idx < length ths
      then (case ths ! thread_idx of
              Handler h \<Rightarrow> h r
            | NotHandler v \<Rightarrow> Raised (Exc ''TypeError: object is not callable''))
      else Raised (Exc ''IndexError: list index out of range''))"

text \<open>Where \<^verbatim>\<open>try ... except Exception as e ... finally\<close> goes after the handler's call
  and after the success callback's.\<close>

fun after_call :: "outcome \<Rightarrow> wpc" where
  "after_call (Returned v) = WSuccessCb v"
| "after_call (Raised (Exc m)) = WErrorCb (Exc m)"
| "after_call (Raised (BaseExc m)) = WFree"

fun after_success_callback :: "exn option \<Rightarrow> wpc" where
  "after_success_callback None = WFree"
| "after_success_callback (Some (Exc m)) = WErrorCb (Exc m)"
| "after_success_callback (Some (BaseExc m)) = WFree"

text \<open>The two reads of \<^verbatim>\<open>checkIfDone\<close> under the lock.\<close>

definition checkIfDone :: "pool \<Rightarrow> bool" where
  "checkIfDone s = (UNHANDLED s = [] \<and> BUSY_THREADS s = [])"

text \<open>
  One atomic action of the worker thread \<open>t\<close> that runs request \<open>r\<close> on slot
  \<open>thread_idx\<close>. An exception left pending by the \<^verbatim>\<open>finally\<close> (one that
  \<^verbatim>\<open>except Exception\<close> does not catch, or one raised by the error callback or the END
  callback) ends the thread after \<^verbatim>\<open>checkIfDone\<close>, as a normal return does, so what
  those two callbacks do to their caller changes no action of the worker.
\<close>

fun worker_step :: "nat \<Rightarrow> nat \<Rightarrow> request \<Rightarrow> wpc \<Rightarrow> pool \<Rightarrow> pool" where
  "worker_step t thread_idx r WCall s =
     set_thread t (Worker thread_idx r (after_call (call_handler (THREADS s) thread_idx r)))
       (emit t (Executed thread_idx r) s)"
| "worker_step t thread_idx r (WSuccessCb result) s =
     set_thread t
       (Worker thread_idx r (after_success_callback (request_success_callback s result)))
       (emit t (Success result) s)"
| "worker_step t thread_idx r (WErrorCb e) s =
     set_thread t (Worker thread_idx r WFree) (emit t (Error \<lparr> req = r, error = e \<rparr>) s)"
| "worker_step t thread_idx r WFree s =
     set_thread t (Worker thread_idx r WCheck)
       (emit t (Freed thread_idx)
          (s\<lparr> BUSY_THREADS := filter (\<lambda>b. index b \<noteq> thread_idx) (BUSY_THREADS s) \<rparr>))"
| "worker_step t thread_idx r WCheck s =
     set_thread t (if checkIfDone s then Worker thread_idx r (WStop SBegin) else Exited)
       (emit t (DrainChecked (checkIfDone s)) s)"
| "worker_step t thread_idx r (WStop pc) s =
     (case Stop_step pc s of
        (pc', s') \<Rightarrow>
          set_thread t (Worker thread_idx r (if stop_done pc' then WEnd else WStop pc')) s')"
| "worker_step t thread_idx r WEnd s = set_thread t Exited (emit t Ended s)"

subsection \<open>Schedules\<close>

text \<open>
  A schedule lists who moves next: a thread takes its next atomic action, the join of a
  thread times out, or an outside caller calls a method of the pool (a call runs without
  interruption, except \<^verbatim>\<open>Stop\<close>, whose caller becomes a thread so that its join can wait).
\<close>

datatype api = AddRequests "item arg" | AddThreads "tobj arg" | StartCall | StopCall

datatype action = Step nat | Timeout nat | Call api

fun thread_step :: "nat \<Rightarrow> thread \<Rightarrow> pool \<Rightarrow> pool" where
  "thread_step t (Dispatcher pc) s = dispatcher_step t pc s"
| "thread_step t (Worker thread_idx r pc) s = worker_step t thread_idx r pc s"
| "thread_step t (Caller pc) s =
     (case Stop_step pc s of
        (pc', s') \<Rightarrow> set_thread t (if stop_done pc' then Exited else Caller pc') s')"
| "thread_step t Exited s = s"

fun thread_timeout :: "thread \<Rightarrow> thread" where
  "thread_timeout (Worker thread_idx r (WStop pc)) = Worker thread_idx r (WStop (join_timeout pc))"
| "thread_timeout (Caller pc) = Caller (join_timeout pc)"
| "thread_timeout th = th"

fun call_api :: "api \<Rightarrow> pool \<Rightarrow> pool" where
  "call_api (AddRequests reqs) s = snd (add_requests reqs s)"
| "call_api (AddThreads Threads) s = snd (add_threads Threads s)"
| "call_api StartCall s = Start s"
| "call_api StopCall s = s\<lparr> threads := threads s @ [Caller SBegin] \<rparr>"

fun exec :: "action \<Rightarrow> pool \<Rightarrow> pool" where
  "exec (Step t) s = (if t < length (threads s) then thread_step t (threads s ! t) s else s)"
| "exec (Timeout t) s =
     (if t < length (threads s) then set_thread t (thread_timeout (threads s ! t)) s else s)"
| "exec (Call c) s = call_api c s"

fun run :: "action list \<Rightarrow> pool \<Rightarrow> pool" where
  "run [] s = s"
| "run (a # as) s = run as (exec a s)"

subsection \<open>Sample handlers and requests\<close>

text \<open>From \<^verbatim>\<open>src/examples/example_usage.py\<close>: \<^verbatim>\<open>test_req_handling_function\<close> returns
  \<^verbatim>\<open>params['text']\<close> (its prints and its sleep are left out), and \<^verbatim>\<open>thread_func\<close>
  returns \<^verbatim>\<open>request['func'](request['params'])\<close>.\<close>

fun test_req_handling_function :: "pyval \<Rightarrow> outcome" where
  "test_req_handling_function (PDict kv) =
     (case map_of kv ''text'' of
        None \<Rightarrow> Raised (Exc ''KeyError: text'')
      | Some v \<Rightarrow> Returned v)"
| "test_req_handling_function v = Raised (Exc ''TypeError: not subscriptable'')"

fun thread_func :: "request \<Rightarrow> outcome" where
  "thread_func r =
     (case func r of
        Fn f \<Rightarrow> f (params r)
      | NotFn v \<Rightarrow> Raised (Exc ''TypeError: object is not callable''))"

text \<open>The request \<^verbatim>\<open>{'params': {'text': "Sentence i"}, 'func': test_req_handling_function}\<close>
  of the example, the sentence abbreviated to its number.\<close>

definition sentence :: "int \<Rightarrow> request" where
  "sentence i = \<lparr> params = PDict [(''text'', PInt i)], func = Fn test_req_handling_function \<rparr>"

text \<open>A request of the example whose params carry no \<^verbatim>\<open>'text'\<close>: the example's
  function raises \<^verbatim>\<open>KeyError\<close> on it.\<close>

definition no_text :: request where
  "no_text = \<lparr> params = PDict [], func = Fn test_req_handling_function \<rparr>"

text \<open>Test inputs that are not in the repository: a slot handler that never touches the
  request's \<^verbatim>\<open>func\<close>, and a request whose \<^verbatim>\<open>func\<close> raises when it is called.\<close>

fun returns_params :: "request \<Rightarrow> outcome" where
  "returns_params r = Returned (params r)"

fun raising_func :: "pyval \<Rightarrow> outcome" where
  "raising_func p = Raised (Exc ''func was called'')"

definition trap :: request where
  "trap = \<lparr> params = PInt 7, func = Fn raising_func \<rparr>"

subsection \<open>Observations on states and schedules\<close>

fun is_dispatcher :: "thread \<Rightarrow> bool" where
  "is_dispatcher (Dispatcher pc) = True"
| "is_dispatcher (Worker thread_idx r pc) = False"
| "is_dispatcher (Caller pc) = False"
| "is_dispatcher Exited = False"

text \<open>The dispatcher threads that have not exited.\<close>

definition dispatchers :: "pool \<Rightarrow> thread list" where
  "dispatchers s = filter is_dispatcher (threads s)"

text \<open>The dispatcher threads other than thread \<open>d\<close> that have not exited.\<close>

definition other_dispatchers :: "nat \<Rightarrow> pool \<Rightarrow> thread list" where
  "other_dispatchers d s = filter is_dispatcher ((threads s)[d := Exited])"

text \<open>The actions that submit requests or call \<^verbatim>\<open>Start\<close>.\<close>

fun submits :: "action \<Rightarrow> bool" where
  "submits (Call (AddRequests reqs)) = True"
| "submits (Call StartCall) = True"
| "submits (Call (AddThreads Threads)) = False"
| "submits (Call StopCall) = False"
| "submits (Step t) = False"
| "submits (Timeout t) = False"

text \<open>A schedule without submission and without \<^verbatim>\<open>Start\<close>.\<close>

definition quiet :: "action list \<Rightarrow> bool" where
  "quiet sch = list_all (\<lambda>a. \<not> submits a) sch"

text \<open>An action that is not thread \<open>w\<close>'s, and a schedule of such actions.\<close>

fun other :: "nat \<Rightarrow> action \<Rightarrow> bool" where
  "other w (Step t) = (t \<noteq> w)"
| "other w (Timeout t) = (t \<noteq> w)"
| "other w (Call c) = True"

definition others :: "nat \<Rightarrow> action list \<Rightarrow> bool" where
  "others w sch = list_all (other w) sch"

text \<open>The actions in which thread \<open>d\<close> takes a step.\<close>

fun moves :: "nat \<Rightarrow> action \<Rightarrow> bool" where
  "moves d (Step t) = (t = d)"
| "moves d (Timeout t) = False"
| "moves d (Call c) = False"

text \<open>
  A dispatcher inside an iteration, with \<open>n\<close> requests queued and no other thread taking
  requests: the number of its actions up to the next \<^verbatim>\<open>while\<close> test, the slots and
  requests it will pair, and the queue it will leave. A dispatcher inside
  \<^verbatim>\<open>get()\<close> has seen the queue non-empty.
\<close>

fun for_steps :: "nat list \<Rightarrow> nat \<Rightarrow> nat" where
  "for_steps [] n = 1"
| "for_steps (idx # rest) 0 = 1"
| "for_steps (idx # rest) (Suc n) = 3 + for_steps rest n"

fun steps_left :: "dpc \<Rightarrow> nat \<Rightarrow> nat" where
  "steps_left DLoop n = 0"
| "steps_left DPoll n = 0"
| "steps_left (DCheck free_threads) n =
     (if free_threads = [] \<or> n = 0 then 1 else 1 + for_steps free_threads n)"
| "steps_left (DFor free_threads) n = for_steps free_threads n"
| "steps_left (DGet idx rest) n = 2 + for_steps rest (n - 1)"
| "steps_left (DHandle r idx rest) n = 1 + for_steps rest n"

fun to_dispatch :: "dpc \<Rightarrow> request list \<Rightarrow> (nat \<times> request) list" where
  "to_dispatch DLoop q = []"
| "to_dispatch DPoll q = []"
| "to_dispatch (DCheck free_threads) q = zip free_threads q"
| "to_dispatch (DFor free_threads) q = zip free_threads q"
| "to_dispatch (DGet idx rest) q = zip (idx # rest) q"
| "to_dispatch (DHandle r idx rest) q = (idx, r) # zip rest q"

fun queue_after :: "dpc \<Rightarrow> request list \<Rightarrow> request list" where
  "queue_after DLoop q = q"
| "queue_after DPoll q = q"
| "queue_after (DCheck free_threads) q = drop (length free_threads) q"
| "queue_after (DFor free_threads) q = drop (length free_threads) q"
| "queue_after (DGet idx rest) q = drop (Suc (length rest)) q"
| "queue_after (DHandle r idx rest) q = drop (length rest) q"

fun in_pass :: "dpc \<Rightarrow> request list \<Rightarrow> bool" where
  "in_pass DLoop q = True"
| "in_pass DPoll q = False"
| "in_pass (DCheck free_threads) q = True"
| "in_pass (DFor free_threads) q = True"
| "in_pass (DGet idx rest) q = (q \<noteq> [])"
| "in_pass (DHandle r idx rest) q = True"

fun is_Dispatched :: "event \<Rightarrow> bool" where
  "is_Dispatched (Dispatched thread_idx r) = True"
| "is_Dispatched (Executed thread_idx r) = False"
| "is_Dispatched (Success result) = False"
| "is_Dispatched (Error response) = False"
| "is_Dispatched (Freed thread_idx) = False"
| "is_Dispatched (DrainChecked b) = False"
| "is_Dispatched Ended = False"

text \<open>The events of the trace, in order; those that belong to the task of worker thread
  \<open>w\<close>; the dispatches.\<close>

definition events :: "pool \<Rightarrow> event list" where
  "events s = map snd (trace s)"

definition task_events :: "nat \<Rightarrow> pool \<Rightarrow> event list" where
  "task_events w s = map snd (filter (\<lambda>p. fst p = w) (trace s))"

definition dispatches :: "pool \<Rightarrow> event list" where
  "dispatches s = filter is_Dispatched (events s)"

text \<open>What thread \<open>w\<close> can see of a step from \<open>s\<close> to \<open>s'\<close> that is not its own:
  its program counter, the events of its task, the handlers and the success callback are
  the same, and no thread has disappeared.\<close>

definition untouched :: "nat \<Rightarrow> pool \<Rightarrow> pool \<Rightarrow> bool" where
  "untouched w s s' =
     (threads s' ! w = threads s ! w \<and> length (threads s) \<le> length (threads s') \<and>
      task_events w s' = task_events w s \<and> THREADS s' = THREADS s \<and>
      request_success_callback s' = request_success_callback s)"

text \<open>In \<open>s\<close>, thread \<open>w\<close> is the worker of request \<open>r\<close> on slot \<open>thread_idx\<close>
  at program counter \<open>pc\<close>, the events of its task so far are \<open>evs\<close>, and the handlers
  and the success callback are those of \<open>s0\<close>.\<close>

definition worker_at ::
  "nat \<Rightarrow> nat \<Rightarrow> request \<Rightarrow> wpc \<Rightarrow> event list \<Rightarrow> pool \<Rightarrow> pool \<Rightarrow> bool" where
  "worker_at w thread_idx r pc evs s0 s =
     (w < length (threads s) \<and> threads s ! w = Worker thread_idx r pc \<and>
      task_events w s = evs \<and> THREADS s = THREADS s0 \<and>
      request_success_callback s = request_success_callback s0)"

text \<open>The program counters of a worker that come before the freeing of its slot.\<close>

fun before_free :: "wpc \<Rightarrow> bool" where
  "before_free WCall = True"
| "before_free (WSuccessCb result) = True"
| "before_free (WErrorCb e) = True"
| "before_free WFree = False"
| "before_free WCheck = False"
| "before_free (WStop pc) = False"
| "before_free WEnd = False"

fun is_Ended :: "event \<Rightarrow> bool" where
  "is_Ended Ended = True"
| "is_Ended (Dispatched thread_idx r) = False"
| "is_Ended (Executed thread_idx r) = False"
| "is_Ended (Success result) = False"
| "is_Ended (Error response) = False"
| "is_Ended (Freed thread_idx) = False"
| "is_Ended (DrainChecked b) = False"

subsection \<open>Sample schedules\<close>

text \<open>
  One request is submitted to a pool of one handler; the dispatcher (thread 0) tests
  \<^verbatim>\<open>running\<close>, polls, passes the \<^verbatim>\<open>continue\<close> test, enters the \<^verbatim>\<open>for\<close> loop, gets
  the request, dispatches it to slot 0 (worker thread 1), leaves the loop, tests
  \<^verbatim>\<open>running\<close> and goes to sleep in its next iteration.
\<close>

definition first_dispatch :: "action list" where
  "first_dispatch =
     [Call (AddRequests (One (Dict (sentence 1)))),
      Step 0, Step 0, Step 0, Step 0, Step 0, Step 0, Step 0, Step 0]"

text \<open>
  The worker runs to the end of its request, finds the pool drained and enters
  \<^verbatim>\<open>Stop\<close>: it clears \<^verbatim>\<open>running\<close> and joins the sleeping dispatcher. Two more requests
  are submitted: \<^verbatim>\<open>running\<close> is false, so \<^verbatim>\<open>Start\<close> sets it and starts a second
  dispatcher (thread 2). The first dispatcher wakes and reads slot 0 as free; the second
  one tests \<^verbatim>\<open>running\<close>, sleeps and reads slot 0 as free too; each then gets a request
  from the queue and dispatches it to slot 0.
\<close>

definition restart_during_stop :: "action list" where
  "restart_during_stop =
     [Step 1, Step 1, Step 1, Step 1, Step 1, Step 1,
      Call (AddRequests (Many [Dict (sentence 2), Dict (sentence 3)])),
      Step 0, Step 2, Step 2,
      Step 0, Step 0, Step 0, Step 0,
      Step 2, Step 2, Step 2, Step 2]"

text \<open>
  Two requests are submitted to a pool of two handlers and dispatched in one pass to
  slots 0 and 1 (worker threads 1 and 2). Both workers call their handler and the success
  callback, both free their slot, and only then both run \<^verbatim>\<open>checkIfDone\<close>. Worker 1 stops
  the pool (the dispatcher leaves at its next test of \<^verbatim>\<open>running\<close>, the join returns) and
  calls the END callback; so does worker 2, whose \<^verbatim>\<open>Stop\<close> finds nothing to do.
\<close>

definition both_finish_together :: "action list" where
  "both_finish_together =
     [Call (AddRequests (Many [Dict (sentence 1), Dict (sentence 2)])),
      Step 0, Step 0, Step 0, Step 0, Step 0, Step 0, Step 0, Step 0, Step 0, Step 0,
      Step 1, Step 1, Step 2, Step 2,
      Step 1, Step 2,
      Step 1, Step 2,
      Step 1, Step 1, Step 0, Step 1, Step 1, Step 1,
      Step 2, Step 2]"

text \<open>
  Three requests are submitted to a pool of one handler; the dispatcher dispatches the
  first to slot 0 (worker thread 1) and sleeps in its next iteration: one request is in
  flight and two are pending.
\<close>

definition one_in_flight :: "action list" where
  "one_in_flight =
     [Call (AddRequests (Many [Dict (sentence 1), Dict (sentence 2), Dict (sentence 3)])),
      Step 0, Step 0, Step 0, Step 0, Step 0, Step 0, Step 0, Step 0]"

text \<open>
  An outside caller (thread 2) calls \<^verbatim>\<open>Stop\<close>, clears \<^verbatim>\<open>running\<close> and joins the
  dispatcher. In the first schedule the request in flight completes before the sleeping
  dispatcher wakes: the dispatcher then polls, gets the next request, dispatches it,
  leaves the loop, tests \<^verbatim>\<open>running\<close> and exits, and the join returns. In the second one
  the dispatcher wakes first, finds no free slot and exits, the join returns, and the
  request in flight completes afterwards (\<open>in_flight_completes\<close>).
\<close>

definition stop_task_first :: "action list" where
  "stop_task_first =
     [Call StopCall, Step 2, Step 2, Step 1, Step 1, Step 1, Step 1,
      Step 0, Step 0, Step 0, Step 0, Step 0, Step 0, Step 0, Step 2, Step 2]"

definition stop_poll_first :: "action list" where
  "stop_poll_first = [Call StopCall, Step 2, Step 2, Step 0, Step 0, Step 0, Step 2, Step 2]"

definition in_flight_completes :: "action list" where
  "in_flight_completes = [Step 1, Step 1, Step 1, Step 1]"

section \<open>Properties\<close>

subsection \<open>Auxiliary facts\<close>

lemmas evals = new_pool_def add_requests_def Start_def sentence_def
  set_thread_def emit_def handle_request_def get_free_threads_def
  is_alive_def call_handler_def checkIfDone_def nth_append dispatches_def dispatchers_def
  events_def task_events_def others_def quiet_def other_dispatchers_def

lemma run_append: "run (as @ bs) s = run bs (run as s)"
  by (induction as arbitrary: s) auto



lemma add_requests_loop_dicts:
  "add_requests_loop (map Dict rs) s =
     (None, s\<lparr> UNHANDLED := UNHANDLED s @ filter (\<lambda>r. callable_f (func r)) rs \<rparr>)"
  by (induction rs arbitrary: s) auto

lemma add_threads_loop_same: "snd (add_threads_loop ts s) = s"
  by (induction ts) auto

text \<open>While no dispatcher thread is left, nothing but a submission or \<^verbatim>\<open>Start\<close> touches the
  queue, dispatches, or brings a dispatcher back.\<close>

lemma filter_update_empty:
  "filter P xs = [] \<Longrightarrow> \<not> P x \<Longrightarrow> filter P (xs[t := x]) = []"
  by (auto simp: filter_empty_conv dest: set_update_subset_insert[THEN subsetD])

lemma Stop_step_frame:
  "UNHANDLED (snd (Stop_step pc s)) = UNHANDLED s \<and>
   BUSY_THREADS (snd (Stop_step pc s)) = BUSY_THREADS s \<and>
   trace (snd (Stop_step pc s)) = trace s \<and>
   threads (snd (Stop_step pc s)) = threads s \<and>
   THREADS (snd (Stop_step pc s)) = THREADS s \<and>
   request_success_callback (snd (Stop_step pc s)) = request_success_callback s"
  by (cases pc) (auto split: option.splits)

lemma Stop_step_running: "\<not> running s \<Longrightarrow> \<not> running (snd (Stop_step pc s))"
  by (cases pc) (auto split: option.splits)

lemma worker_step_frame:
  assumes "dispatchers s = []"
  shows "UNHANDLED (worker_step t idx r pc s) = UNHANDLED s \<and>
         dispatches (worker_step t idx r pc s) = dispatches s \<and>
         dispatchers (worker_step t idx r pc s) = []"
proof (cases pc)
  case (WStop spc)
  with assms Stop_step_frame[of spc s] show ?thesis
    by (simp add: dispatches_def events_def dispatchers_def set_thread_def filter_update_empty
        case_prod_beta)
qed (use assms in \<open>simp_all add: set_thread_def emit_def dispatches_def events_def
      dispatchers_def filter_update_empty\<close>)

lemma thread_step_frame:
  assumes "dispatchers s = []" and "\<not> is_dispatcher th"
  shows "UNHANDLED (thread_step t th s) = UNHANDLED s \<and>
         dispatches (thread_step t th s) = dispatches s \<and>
         dispatchers (thread_step t th s) = []"
proof (cases th)
  case (Worker idx r pc)
  with worker_step_frame[OF assms(1)] show ?thesis by simp
next
  case (Caller spc)
  with assms Stop_step_frame[of spc s] show ?thesis
    by (simp add: dispatches_def events_def dispatchers_def set_thread_def filter_update_empty
        case_prod_beta)
qed (use assms in simp_all)

lemma thread_timeout_not_dispatcher:
  "\<not> is_dispatcher th \<Longrightarrow> \<not> is_dispatcher (thread_timeout th)"
  by (cases th rule: thread_timeout.cases) simp_all

lemma nth_not_dispatcher:
  "dispatchers s = [] \<Longrightarrow> t < length (threads s) \<Longrightarrow> \<not> is_dispatcher (threads s ! t)"
  by (auto simp: dispatchers_def filter_empty_conv)

lemma exec_frame:
  assumes "dispatchers s = []" and "\<not> submits a"
  shows "UNHANDLED (exec a s) = UNHANDLED s \<and> dispatches (exec a s) = dispatches s \<and>
         dispatchers (exec a s) = []"
proof (cases a)
  case (Step t)
  with assms(1) thread_step_frame[OF assms(1) nth_not_dispatcher[OF assms(1)], of t t]
  show ?thesis by (simp add: dispatches_def)
next
  case (Timeout t)
  with assms(1) thread_timeout_not_dispatcher[OF nth_not_dispatcher[OF assms(1)], of t]
  show ?thesis
    by (simp add: dispatches_def events_def dispatchers_def set_thread_def filter_update_empty)
next
  case (Call c)
  with assms show ?thesis
    by (cases c)
      (simp_all add: dispatches_def events_def dispatchers_def add_threads_def
        add_threads_loop_same)
qed

lemma run_frame:
  "dispatchers s = [] \<Longrightarrow> quiet sch \<Longrightarrow>
   UNHANDLED (run sch s) = UNHANDLED s \<and> dispatches (run sch s) = dispatches s \<and>
   dispatchers (run sch s) = []"
proof (induction sch arbitrary: s)
  case Nil
  then show ?case by simp
next
  case (Cons a sch)
  from Cons.prems have a: "\<not> submits a" and rest: "quiet sch"
    by (simp_all add: quiet_def)
  from exec_frame[OF Cons.prems(1) a] Cons.IH[OF _ rest, of "exec a s"]
  show ?case by simp
qed

text \<open>The actions of the other threads and of outside callers leave a thread's program
  counter and the events of its task as they are.\<close>

lemma untouched_refl: "untouched w s s"
  by (simp add: untouched_def)

lemma untouched_trans:
  "untouched w s s' \<Longrightarrow> untouched w s' s'' \<Longrightarrow> untouched w s s''"
  by (simp add: untouched_def)

lemma untouched_handle_request:
  "w < length (threads s) \<Longrightarrow> untouched w s (handle_request r idx s)"
  by (simp add: untouched_def handle_request_def task_events_def nth_append)

lemma untouched_dispatcher_step:
  "w < length (threads s) \<Longrightarrow> t \<noteq> w \<Longrightarrow> untouched w s (dispatcher_step t pc s)"
proof (cases pc)
  case (DFor free)
  assume "w < length (threads s)" and "t \<noteq> w"
  with DFor show ?thesis
    by (cases free) (simp_all add: untouched_def set_thread_def task_events_def)
next
  case (DGet idx rest)
  assume "w < length (threads s)" and "t \<noteq> w"
  with DGet show ?thesis
    by (cases "UNHANDLED s") (simp_all add: untouched_def set_thread_def task_events_def)
next
  case (DHandle r idx rest)
  assume "w < length (threads s)" and "t \<noteq> w"
  with DHandle show ?thesis
    by (simp add: untouched_def set_thread_def handle_request_def task_events_def nth_append)
qed (simp_all add: untouched_def set_thread_def task_events_def)

lemma untouched_worker_step:
  "w < length (threads s) \<Longrightarrow> t \<noteq> w \<Longrightarrow> untouched w s (worker_step t idx r pc s)"
proof (cases pc)
  case (WStop spc)
  assume "w < length (threads s)" and "t \<noteq> w"
  with WStop Stop_step_frame[of spc s] show ?thesis
    by (simp add: untouched_def set_thread_def task_events_def case_prod_beta)
qed (simp_all add: untouched_def set_thread_def emit_def task_events_def)

lemma untouched_thread_step:
  "w < length (threads s) \<Longrightarrow> t \<noteq> w \<Longrightarrow> untouched w s (thread_step t th s)"
proof (cases th)
  case (Caller spc)
  assume "w < length (threads s)" and "t \<noteq> w"
  with Caller Stop_step_frame[of spc s] show ?thesis
    by (simp add: untouched_def set_thread_def task_events_def case_prod_beta)
qed (simp_all add: untouched_dispatcher_step untouched_worker_step untouched_refl)

lemma add_requests_loop_frame:
  "threads (snd (add_requests_loop rs s)) = threads s \<and>
   trace (snd (add_requests_loop rs s)) = trace s \<and>
   THREADS (snd (add_requests_loop rs s)) = THREADS s \<and>
   request_success_callback (snd (add_requests_loop rs s)) = request_success_callback s"
  by (induction rs s rule: add_requests_loop.induct) (auto split: pyval.splits)

lemma untouched_call_api: "w < length (threads s) \<Longrightarrow> untouched w s (call_api c s)"
proof (cases c)
  case (AddRequests reqs)
  assume "w < length (threads s)"
  with AddRequests add_requests_loop_frame[of "as_list reqs" s] show ?thesis
    by (cases "add_requests_loop (as_list reqs) s")
      (auto simp: untouched_def add_requests_def Start_def task_events_def nth_append
        split: option.splits)
next
  case (AddThreads Threads)
  then show ?thesis
    by (simp add: add_threads_def add_threads_loop_same untouched_refl)
qed (simp_all add: untouched_def Start_def task_events_def nth_append)

lemma untouched_exec:
  "w < length (threads s) \<Longrightarrow> other w a \<Longrightarrow> untouched w s (exec a s)"
proof (cases a)
  case (Step t)
  assume "w < length (threads s)" and "other w a"
  with Step show ?thesis by (simp add: untouched_thread_step untouched_refl)
next
  case (Timeout t)
  assume "w < length (threads s)" and "other w a"
  with Timeout show ?thesis by (simp add: untouched_def set_thread_def task_events_def)
next
  case (Call c)
  assume "w < length (threads s)"
  with Call show ?thesis by (simp add: untouched_call_api)
qed

lemma untouched_run:
  "w < length (threads s) \<Longrightarrow> others w sch \<Longrightarrow> untouched w s (run sch s)"
proof (induction sch arbitrary: s)
  case Nil
  then show ?case by (simp add: untouched_refl)
next
  case (Cons a sch)
  from Cons.prems have a: "other w a" and rest: "others w sch"
    by (simp_all add: others_def)
  have 1: "untouched w s (exec a s)" by (rule untouched_exec[OF Cons.prems(1) a])
  then have "w < length (threads (exec a s))"
    using Cons.prems(1) by (simp add: untouched_def)
  from untouched_trans[OF 1 Cons.IH[OF this rest]] show ?case by simp
qed

text \<open>A worker's own actions, one by one.\<close>

lemma worker_at_run:
  "worker_at w idx r pc evs s0 s \<Longrightarrow> others w sch \<Longrightarrow> worker_at w idx r pc evs s0 (run sch s)"
  using untouched_run[of w s sch] by (simp add: worker_at_def untouched_def)

lemma worker_at_WCall:
  "worker_at w idx r WCall evs s0 s \<Longrightarrow>
   worker_at w idx r (after_call (call_handler (THREADS s0) idx r)) (evs @ [Executed idx r]) s0
     (exec (Step w) s)"
  by (simp add: worker_at_def set_thread_def emit_def task_events_def)

lemma worker_at_WSuccessCb:
  "worker_at w idx r (WSuccessCb v) evs s0 s \<Longrightarrow>
   worker_at w idx r (after_success_callback (request_success_callback s0 v)) (evs @ [Success v])
     s0 (exec (Step w) s)"
  by (simp add: worker_at_def set_thread_def emit_def task_events_def)

lemma worker_at_WErrorCb:
  "worker_at w idx r (WErrorCb e) evs s0 s \<Longrightarrow>
   worker_at w idx r WFree (evs @ [Error \<lparr> req = r, error = e \<rparr>]) s0 (exec (Step w) s)"
  by (simp add: worker_at_def set_thread_def emit_def task_events_def)

lemma worker_at_WFree:
  "worker_at w idx r WFree evs s0 s \<Longrightarrow>
   worker_at w idx r WCheck (evs @ [Freed idx]) s0 (exec (Step w) s)"
  by (simp add: worker_at_def set_thread_def emit_def task_events_def)

lemma worker_at_WCheck:
  "worker_at w idx r WCheck evs s0 s \<Longrightarrow>
   task_events w (exec (Step w) s) = evs @ [DrainChecked (checkIfDone s)]"
  by (simp add: worker_at_def set_thread_def emit_def task_events_def)

lemma worker_at_handle_request:
  "task_events (length (threads s)) s = [] \<Longrightarrow>
   worker_at (length (threads s)) idx r WCall [Dispatched idx r] s (handle_request r idx s)"
  by (simp add: worker_at_def handle_request_def task_events_def)

text \<open>From the dispatch to the drain check, with the other threads' actions in between.\<close>

lemma lifecycle_head:
  assumes "task_events (length (threads s)) s = []" and "others (length (threads s)) sch0"
  shows "worker_at (length (threads s)) idx r (after_call (call_handler (THREADS s) idx r))
           [Dispatched idx r, Executed idx r] s
           (run (sch0 @ [Step (length (threads s))]) (handle_request r idx s))"
  using worker_at_WCall[OF worker_at_run[OF worker_at_handle_request[OF assms(1)] assms(2)]]
  by (simp add: run_append)

lemma lifecycle_tail:
  assumes "worker_at w idx r WFree evs s (run (sch0 @ Step w # sch1 @ [Step w]) s1)"
    and "others w sch2" and "others w sch3"
  shows "task_events w (run (sch0 @ Step w # sch1 @ Step w # sch2 @ Step w # sch3 @ [Step w]) s1) =
         evs @ [Freed idx,
           DrainChecked (checkIfDone
             (run (sch0 @ Step w # sch1 @ Step w # sch2 @ Step w # sch3) s1))]"
proof -
  have 3: "worker_at w idx r WFree evs s (run (sch0 @ Step w # sch1 @ Step w # sch2) s1)"
    using worker_at_run[OF assms(1,2)] by (simp add: run_append)
  have 4: "worker_at w idx r WCheck (evs @ [Freed idx]) s
             (run (sch0 @ Step w # sch1 @ Step w # sch2 @ Step w # sch3) s1)"
    using worker_at_run[OF worker_at_WFree[OF 3] assms(3)] by (simp add: run_append)
  from worker_at_WCheck[OF 4] show ?thesis by (simp add: run_append)
qed

lemma run_step_again:
  "run (sch0 @ Step w # sch1 @ [Step w]) s1 =
   exec (Step w) (run sch1 (run (sch0 @ [Step w]) s1))"
  by (simp add: run_append)

lemma error_callback_after_call:
  assumes "others w sch1"
    and "worker_at w idx r (WErrorCb x) evs s (run (sch0 @ [Step w]) s1)"
  shows "worker_at w idx r WFree (evs @ [Error \<lparr> req = r, error = x \<rparr>]) s
           (run (sch0 @ Step w # sch1 @ [Step w]) s1)"
  unfolding run_step_again
  by (rule worker_at_WErrorCb[OF worker_at_run[OF assms(2,1)]])

lemma success_callback_after_call:
  assumes "others w sch1"
    and "worker_at w idx r (WSuccessCb v) evs s (run (sch0 @ [Step w]) s1)"
    and "request_success_callback s v = None"
  shows "worker_at w idx r WFree (evs @ [Success v]) s
           (run (sch0 @ Step w # sch1 @ [Step w]) s1)"
  unfolding run_step_again
  using worker_at_WSuccessCb[OF worker_at_run[OF assms(2,1)]] assms(3) by simp

lemma before_free_keeps_busy:
  "t < length (threads u) \<Longrightarrow> threads u ! t = Worker idx r pc \<Longrightarrow> before_free pc \<Longrightarrow>
   BUSY_THREADS (exec (Step t) u) = BUSY_THREADS u"
  by (cases pc) (simp_all add: set_thread_def emit_def)

text \<open>The handler's call and the callback that follows it, with the other threads' actions
  in between.\<close>

lemma call_then_callback:
  assumes "w < length (threads s)" and "threads s ! w = Worker idx r WCall"
    and "others w sch"
  shows "call_handler (THREADS s) idx r = Raised (Exc m) \<Longrightarrow>
           task_events w (run (Step w # sch @ [Step w]) s) =
             task_events w s @ [Executed idx r, Error \<lparr> req = r, error = Exc m \<rparr>] \<and>
           threads (run (Step w # sch @ [Step w]) s) ! w = Worker idx r WFree"
    and "call_handler (THREADS s) idx r = Returned v \<Longrightarrow>
           task_events w (run (Step w # sch @ [Step w]) s) =
             task_events w s @ [Executed idx r, Success v]"
proof -
  have at: "worker_at w idx r WCall (task_events w s) s s"
    using assms(1,2) by (simp add: worker_at_def)
  have call: "worker_at w idx r (after_call (call_handler (THREADS s) idx r))
                (task_events w s @ [Executed idx r]) s (run sch (exec (Step w) s))"
    by (rule worker_at_run[OF worker_at_WCall[OF at] assms(3)])
  have split: "run (Step w # sch @ [Step w]) s = exec (Step w) (run sch (exec (Step w) s))"
    by (simp add: run_append)
  show "task_events w (run (Step w # sch @ [Step w]) s) =
          task_events w s @ [Executed idx r, Error \<lparr> req = r, error = Exc m \<rparr>] \<and>
        threads (run (Step w # sch @ [Step w]) s) ! w = Worker idx r WFree"
    if h: "call_handler (THREADS s) idx r = Raised (Exc m)"
  proof -
    from call h
    have "worker_at w idx r (WErrorCb (Exc m)) (task_events w s @ [Executed idx r]) s
            (run sch (exec (Step w) s))"
      by (simp del: exec.simps)
    from worker_at_WErrorCb[OF this] show ?thesis
      unfolding split by (simp add: worker_at_def del: exec.simps)
  qed
  show "task_events w (run (Step w # sch @ [Step w]) s) =
          task_events w s @ [Executed idx r, Success v]"
    if h: "call_handler (THREADS s) idx r = Returned v"
  proof -
    from call h
    have "worker_at w idx r (WSuccessCb v) (task_events w s @ [Executed idx r]) s
            (run sch (exec (Step w) s))"
      by (simp del: exec.simps)
    from worker_at_WSuccessCb[OF this] show ?thesis
      unfolding split by (simp add: worker_at_def del: exec.simps)
  qed
qed

text \<open>A dispatcher \<open>d\<close> that is the only one: the actions of the other threads and of
  callers that submit nothing leave its program counter, the queue and the dispatches as
  they are, start no dispatcher, and do not set \<^verbatim>\<open>running\<close>.\<close>

lemma filter_update2_empty:
  "filter P (xs[d := e]) = [] \<Longrightarrow> \<not> P x \<Longrightarrow> filter P ((xs[t := x])[d := e]) = []"
  by (cases "t = d") (simp_all add: list_update_swap[of t d] filter_update_empty)

lemma other_dispatchers_nth:
  "other_dispatchers d s = [] \<Longrightarrow> t < length (threads s) \<Longrightarrow> t \<noteq> d \<Longrightarrow>
   \<not> is_dispatcher (threads s ! t)"
proof -
  assume a: "other_dispatchers d s = []" and t: "t < length (threads s)" and n: "t \<noteq> d"
  from t have "t < length ((threads s)[d := Exited])" by simp
  then have "(threads s)[d := Exited] ! t \<in> set ((threads s)[d := Exited])"
    by (rule nth_mem)
  with a have "\<not> is_dispatcher ((threads s)[d := Exited] ! t)"
    by (simp add: other_dispatchers_def filter_empty_conv)
  with n show ?thesis by simp
qed

lemma worker_step_bystander:
  assumes "d < length (threads s)" and "other_dispatchers d s = []" and "t \<noteq> d"
  shows "threads (worker_step t idx r pc s) ! d = threads s ! d \<and>
         d < length (threads (worker_step t idx r pc s)) \<and>
         UNHANDLED (worker_step t idx r pc s) = UNHANDLED s \<and>
         dispatches (worker_step t idx r pc s) = dispatches s \<and>
         other_dispatchers d (worker_step t idx r pc s) = [] \<and>
         (\<not> running s \<longrightarrow> \<not> running (worker_step t idx r pc s))"
proof (cases pc)
  case (WStop spc)
  with assms Stop_step_frame[of spc s] Stop_step_running[of s spc] show ?thesis
    by (simp add: dispatches_def events_def set_thread_def case_prod_beta
        other_dispatchers_def filter_update2_empty)
qed (use assms in \<open>simp_all add: dispatches_def events_def set_thread_def emit_def
      other_dispatchers_def filter_update2_empty\<close>)

lemma thread_step_bystander:
  assumes "d < length (threads s)" and "other_dispatchers d s = []" and "t \<noteq> d"
    and "\<not> is_dispatcher th"
  shows "threads (thread_step t th s) ! d = threads s ! d \<and>
         d < length (threads (thread_step t th s)) \<and>
         UNHANDLED (thread_step t th s) = UNHANDLED s \<and>
         dispatches (thread_step t th s) = dispatches s \<and>
         other_dispatchers d (thread_step t th s) = [] \<and>
         (\<not> running s \<longrightarrow> \<not> running (thread_step t th s))"
proof (cases th)
  case (Worker idx r pc)
  with worker_step_bystander[OF assms(1-3)] show ?thesis by simp
next
  case (Caller spc)
  with assms Stop_step_frame[of spc s] Stop_step_running[of s spc] show ?thesis
    by (simp add: dispatches_def events_def set_thread_def case_prod_beta
        other_dispatchers_def filter_update2_empty)
qed (use assms in simp_all)

lemma exec_bystander:
  assumes "d < length (threads s)" and "threads s ! d = Dispatcher pc"
    and "other_dispatchers d s = []" and "\<not> moves d a" and "\<not> submits a"
  shows "threads (exec a s) ! d = Dispatcher pc \<and> d < length (threads (exec a s)) \<and>
         UNHANDLED (exec a s) = UNHANDLED s \<and> dispatches (exec a s) = dispatches s \<and>
         other_dispatchers d (exec a s) = [] \<and> (\<not> running s \<longrightarrow> \<not> running (exec a s))"
proof (cases a)
  case (Step t)
  with assms(4) have t: "t \<noteq> d" by simp
  show ?thesis
  proof (cases "t < length (threads s)")
    case True
    from thread_step_bystander[OF assms(1,3) t other_dispatchers_nth[OF assms(3) True t]]
      Step True assms(2)
    show ?thesis by simp
  next
    case False
    with Step assms show ?thesis by simp
  qed
next
  case (Timeout t)
  show ?thesis
  proof (cases "t = d")
    case True
    with Timeout assms show ?thesis
      by (simp add: set_thread_def dispatches_def events_def other_dispatchers_def)
  next
    case False
    show ?thesis
    proof (cases "t < length (threads s)")
      case True
      with Timeout False assms
        thread_timeout_not_dispatcher[OF other_dispatchers_nth[OF assms(3) True False]]
      show ?thesis
        by (simp add: set_thread_def dispatches_def events_def other_dispatchers_def
            filter_update2_empty)
    next
      case False
      with Timeout assms show ?thesis by simp
    qed
  qed
next
  case (Call c)
  with assms show ?thesis
    by (cases c)
      (simp_all add: dispatches_def events_def other_dispatchers_def add_threads_def
        add_threads_loop_same nth_append list_update_append)
qed

lemma run_bystanders:
  assumes "d < length (threads s)" and "threads s ! d = Dispatcher pc"
    and "other_dispatchers d s = []" and "quiet sch" and "others d sch"
  shows "threads (run sch s) ! d = Dispatcher pc \<and> d < length (threads (run sch s)) \<and>
         UNHANDLED (run sch s) = UNHANDLED s \<and> dispatches (run sch s) = dispatches s \<and>
         other_dispatchers d (run sch s) = [] \<and> (\<not> running s \<longrightarrow> \<not> running (run sch s))"
  using assms
proof (induction sch arbitrary: s)
  case Nil
  then show ?case by simp
next
  case (Cons a sch)
  from Cons.prems have a: "\<not> submits a" "\<not> moves d a" and rest: "quiet sch" "others d sch"
    by (cases a; simp add: quiet_def others_def)+
  note 1 = exec_bystander[OF Cons.prems(1-3) a(2,1)]
  from 1 Cons.IH[OF _ _ _ rest, of "exec a s"] show ?case by simp
qed

text \<open>The dispatcher's own actions inside an iteration.\<close>

lemma for_steps_pos: "for_steps free n \<noteq> 0"
  by (induction free n rule: for_steps.induct) simp_all

lemma steps_left_0: "in_pass pc q \<Longrightarrow> steps_left pc (length q) = 0 \<Longrightarrow> pc = DLoop"
  by (cases pc) (simp_all add: for_steps_pos split: if_splits)

lemma pass_step:
  assumes "d < length (threads s)" and "threads s ! d = Dispatcher pc"
    and "in_pass pc (UNHANDLED s)" and "pc \<noteq> DLoop" and "other_dispatchers d s = []"
  shows "\<exists>pc'. threads (exec (Step d) s) ! d = Dispatcher pc' \<and>
           in_pass pc' (UNHANDLED (exec (Step d) s)) \<and>
           steps_left pc (length (UNHANDLED s)) =
             Suc (steps_left pc' (length (UNHANDLED (exec (Step d) s)))) \<and>
           dispatches (exec (Step d) s) @
             map (\<lambda>(i, r). Dispatched i r) (to_dispatch pc' (UNHANDLED (exec (Step d) s))) =
           dispatches s @ map (\<lambda>(i, r). Dispatched i r) (to_dispatch pc (UNHANDLED s)) \<and>
           BUSY_THREADS (exec (Step d) s) @
             map (\<lambda>(i, r). \<lparr> index = i, request = r \<rparr>)
               (to_dispatch pc' (UNHANDLED (exec (Step d) s))) =
           BUSY_THREADS s @
             map (\<lambda>(i, r). \<lparr> index = i, request = r \<rparr>) (to_dispatch pc (UNHANDLED s)) \<and>
           queue_after pc' (UNHANDLED (exec (Step d) s)) = queue_after pc (UNHANDLED s) \<and>
           d < length (threads (exec (Step d) s)) \<and>
           other_dispatchers d (exec (Step d) s) = [] \<and>
           running (exec (Step d) s) = running s"
proof (cases pc)
  case DLoop
  with assms(4) show ?thesis by simp
next
  case DPoll
  with assms(3) show ?thesis by simp
next
  case (DCheck free)
  with assms show ?thesis
    by (auto simp: set_thread_def dispatches_def events_def other_dispatchers_def)
next
  case (DFor free)
  with assms show ?thesis
    by (cases free; cases "UNHANDLED s")
      (auto simp: set_thread_def dispatches_def events_def other_dispatchers_def)
next
  case (DGet idx rest)
  with assms show ?thesis
    by (cases "UNHANDLED s")
      (auto simp: set_thread_def dispatches_def events_def other_dispatchers_def)
next
  case (DHandle r idx rest)
  with assms show ?thesis
    by (auto simp: set_thread_def handle_request_def dispatches_def events_def
        other_dispatchers_def list_update_append nth_append)
qed

text \<open>An iteration of the only dispatcher, from any point inside it to the next
  \<^verbatim>\<open>while\<close> test, with the actions of the other threads in between.\<close>

lemma pass_sim:
  assumes "d < length (threads s)" and "threads s ! d = Dispatcher pc"
    and "in_pass pc (UNHANDLED s)" and "other_dispatchers d s = []" and "quiet sch"
    and "length (filter (moves d) sch) = steps_left pc (length (UNHANDLED s))"
  shows "threads (run sch s) ! d = Dispatcher DLoop \<and> d < length (threads (run sch s)) \<and>
         UNHANDLED (run sch s) = queue_after pc (UNHANDLED s) \<and>
         dispatches (run sch s) =
           dispatches s @ map (\<lambda>(i, r). Dispatched i r) (to_dispatch pc (UNHANDLED s)) \<and>
         other_dispatchers d (run sch s) = [] \<and> (\<not> running s \<longrightarrow> \<not> running (run sch s))"
  using assms
proof (induction sch arbitrary: s pc)
  case Nil
  then have "pc = DLoop" using steps_left_0 by simp
  with Nil show ?case by simp
next
  case (Cons a sch)
  from Cons.prems(5) have q: "\<not> submits a" "quiet sch" by (simp_all add: quiet_def)
  show ?case
  proof (cases "moves d a")
    case True
    then have a: "a = Step d" by (cases a) simp_all
    from True Cons.prems(6) have "pc \<noteq> DLoop" by auto
    from pass_step[OF Cons.prems(1-3) this Cons.prems(4)] obtain pc' where
      p: "threads (exec (Step d) s) ! d = Dispatcher pc'"
         "in_pass pc' (UNHANDLED (exec (Step d) s))"
         "steps_left pc (length (UNHANDLED s)) =
            Suc (steps_left pc' (length (UNHANDLED (exec (Step d) s))))"
         "dispatches (exec (Step d) s) @
            map (\<lambda>(i, r). Dispatched i r) (to_dispatch pc' (UNHANDLED (exec (Step d) s))) =
          dispatches s @ map (\<lambda>(i, r). Dispatched i r) (to_dispatch pc (UNHANDLED s))"
         "queue_after pc' (UNHANDLED (exec (Step d) s)) = queue_after pc (UNHANDLED s)"
         "d < length (threads (exec (Step d) s))"
         "other_dispatchers d (exec (Step d) s) = []"
         "running (exec (Step d) s) = running s"
      by blast
    from True Cons.prems(6) p(3)
    have n: "length (filter (moves d) sch) =
               steps_left pc' (length (UNHANDLED (exec (Step d) s)))"
      by simp
    from Cons.IH[OF p(6) p(1) p(2) p(7) q(2) n] p(4,5,8) a show ?thesis
      by (simp del: exec.simps)
  next
    case False
    note 1 = exec_bystander[OF Cons.prems(1,2,4) False q(1)]
    from False Cons.prems(6) 1
    have n: "length (filter (moves d) sch) = steps_left pc (length (UNHANDLED (exec a s)))"
      by simp
    from 1 Cons.prems(3) have i: "in_pass pc (UNHANDLED (exec a s))" by simp
    from Cons.IH[OF _ _ i _ q(2) n] 1 show ?thesis by (simp del: exec.simps)
  qed
qed


lemma quiet_replicate_Step: "quiet (replicate n (Step d))"
  by (simp add: quiet_def list_all_length)

lemma moves_replicate_Step: "length (filter (moves d) (replicate n (Step d))) = n"
  by (induction n) simp_all

lemma others_no_moves: "others d sch \<Longrightarrow> filter (moves d) sch = []"
proof (induction sch)
  case Nil
  then show ?case by simp
next
  case (Cons a sch)
  then show ?case by (cases a) (simp_all add: others_def)
qed

text \<open>Once \<^verbatim>\<open>running\<close> is false, the only dispatcher finishes the iteration it is in,
  exits at the \<^verbatim>\<open>while\<close> test, and nothing is dispatched after that.\<close>

lemma stopped_pass:
  assumes "d < length (threads s)" and "threads s ! d = Dispatcher pc"
    and "in_pass pc (UNHANDLED s)" and "other_dispatchers d s = []" and "\<not> running s"
    and "quiet sa" and "length (filter (moves d) sa) = steps_left pc (length (UNHANDLED s))"
    and "quiet sb"
  shows "UNHANDLED (run (sa @ Step d # sb) s) = queue_after pc (UNHANDLED s) \<and>
         dispatches (run (sa @ Step d # sb) s) =
           dispatches s @ map (\<lambda>(i, r). Dispatched i r) (to_dispatch pc (UNHANDLED s)) \<and>
         dispatchers (run (sa @ Step d # sb) s) = []"
proof -
  note 1 = pass_sim[OF assms(1-4,6,7)]
  from 1 assms(5) have 2:
    "UNHANDLED (exec (Step d) (run sa s)) = queue_after pc (UNHANDLED s)"
    "dispatches (exec (Step d) (run sa s)) =
       dispatches s @ map (\<lambda>(i, r). Dispatched i r) (to_dispatch pc (UNHANDLED s))"
    "dispatchers (exec (Step d) (run sa s)) = []"
    by (simp_all add: set_thread_def dispatches_def events_def dispatchers_def
        other_dispatchers_def)
  from run_frame[OF 2(3) assms(8)] 2 show ?thesis
    by (simp add: run_append del: exec.simps)
qed

subsection \<open>The dispatcher pass\<close>



subsection \<open>One task per slot\<close>

text \<open>
  C2. In every reachable state each slot index appears in at most one busy entry. The
  code breaks this: after the schedule \<open>first_dispatch @ restart_during_stop\<close> on a
  pool of one handler, two dispatcher threads are alive and the busy list holds two
  entries for slot 0, one for each of the two requests submitted last.
\<close>

theorem slot_zero_busy_twice:
  "map index (BUSY_THREADS (run (first_dispatch @ restart_during_stop)
      (new_pool [Handler thread_func]))) = [0, 0] \<and>
   map request (BUSY_THREADS (run (first_dispatch @ restart_during_stop)
      (new_pool [Handler thread_func]))) = [sentence 2, sentence 3] \<and>
   length (dispatchers (run (first_dispatch @ restart_during_stop)
      (new_pool [Handler thread_func]))) = 2"
  by (simp add: first_dispatch_def restart_during_stop_def evals)

subsection \<open>The drain callback\<close>

text \<open>
  C3. After a task completes with the queue empty and no slot busy, \<open>Stop\<close> is called
  and then the END callback, exactly once per drain episode. The code breaks the
  "exactly once": after the schedule \<open>both_finish_together\<close> on a pool of two handlers,
  one batch of two requests has been dispatched and completed, and the END callback has
  been called twice.
\<close>

theorem END_called_twice_for_one_batch:
  "dispatches (run both_finish_together (new_pool [Handler thread_func, Handler thread_func])) =
     [Dispatched 0 (sentence 1), Dispatched 1 (sentence 2)] \<and>
   events (run both_finish_together (new_pool [Handler thread_func, Handler thread_func])) =
     [Dispatched 0 (sentence 1), Dispatched 1 (sentence 2),
      Executed 0 (sentence 1), Success (PInt 1), Executed 1 (sentence 2), Success (PInt 2),
      Freed 0, Freed 1, DrainChecked True, DrainChecked True, Ended, Ended] \<and>
   length (filter is_Ended
     (events (run both_finish_together (new_pool [Handler thread_func, Handler thread_func])))) = 2"
  by (simp add: both_finish_together_def evals)

subsection \<open>Handler failures\<close>

text \<open>
  C4. A failure raised by a dispatched task's handler is caught at that task's boundary,
  does not reach the dispatch loop or other workers, and goes to the ERROR callback with
  the original request and the failure; SUCCESS receives the handler's return value.
  Let thread \<open>w\<close> be a worker about to call the handler of slot \<open>idx\<close> on request
  \<open>r\<close>, and let the other threads and outside callers act as they like (\<open>sch\<close>)
  between its next two actions. If the call raises the exception \<open>Exc m\<close>, the action
  that makes the call changes nothing in the pool but this worker's own program counter
  (and the trace): every other thread, \<open>running\<close>, the queue and the busy list are as
  before. The worker's next action calls the ERROR callback with
  \<open>\<lparr>req = r, error = Exc m\<rparr>\<close>, after which it goes on to free its slot. If the call
  returns \<open>v\<close>, the worker's next action calls the SUCCESS callback with \<open>v\<close>. The call
  of the ERROR callback, too, changes nothing but the worker's program counter.
\<close>

theorem handler_failure_goes_to_error_callback:
  assumes "w < length (threads s)" and "threads s ! w = Worker idx r WCall"
    and "others w sch"
  shows
   "(call_handler (THREADS s) idx r = Raised (Exc m) \<longrightarrow>
       exec (Step w) s =
         s\<lparr> threads := (threads s)[w := Worker idx r (WErrorCb (Exc m))],
            trace := trace s @ [(w, Executed idx r)] \<rparr> \<and>
       task_events w (run (Step w # sch @ [Step w]) s) =
         task_events w s @ [Executed idx r, Error \<lparr> req = r, error = Exc m \<rparr>] \<and>
       threads (run (Step w # sch @ [Step w]) s) ! w = Worker idx r WFree) \<and>
    (call_handler (THREADS s) idx r = Returned v \<longrightarrow>
       task_events w (run (Step w # sch @ [Step w]) s) =
         task_events w s @ [Executed idx r, Success v]) \<and>
    (t < length (threads u) \<and> threads u ! t = Worker idx r (WErrorCb e) \<longrightarrow>
       exec (Step t) u =
         u\<lparr> threads := (threads u)[t := Worker idx r WFree],
            trace := trace u @ [(t, Error \<lparr> req = r, error = e \<rparr>)] \<rparr>)"
proof -
  note err = call_then_callback(1)[OF assms, of m]
  note ok = call_then_callback(2)[OF assms, of v]
  have frame: "exec (Step w) s =
         s\<lparr> threads := (threads s)[w := Worker idx r (WErrorCb (Exc m))],
            trace := trace s @ [(w, Executed idx r)] \<rparr>"
    if "call_handler (THREADS s) idx r = Raised (Exc m)"
    using assms(1,2) that by (simp add: set_thread_def emit_def)
  have frame2: "exec (Step t) u =
         u\<lparr> threads := (threads u)[t := Worker idx r WFree],
            trace := trace u @ [(t, Error \<lparr> req = r, error = e \<rparr>)] \<rparr>"
    if "t < length (threads u)" "threads u ! t = Worker idx r (WErrorCb e)"
    using that by (simp add: set_thread_def emit_def)
  from err ok frame frame2 show ?thesis by blast
qed

theorem handler_failure_goes_to_error_callback_witness:
  "task_events 1 (run [Step 1, Step 0, Step 1]
      (run [Call (AddRequests (One (Dict no_text))), Step 0, Step 0, Step 0, Step 0, Step 0, Step 0]
         (new_pool [Handler thread_func]))) =
     [Dispatched 0 no_text, Executed 0 no_text,
      Error \<lparr> req = no_text, error = Exc ''KeyError: text'' \<rparr>] \<and>
   threads (run [Step 1, Step 0, Step 1]
      (run [Call (AddRequests (One (Dict no_text))), Step 0, Step 0, Step 0, Step 0, Step 0, Step 0]
         (new_pool [Handler thread_func]))) = [Dispatcher DLoop, Worker 0 no_text WFree] \<and>
   task_events 1 (run [Step 1, Step 0, Step 1]
      (run [Call (AddRequests (One (Dict (sentence 5)))), Step 0, Step 0, Step 0, Step 0, Step 0, Step 0]
         (new_pool [Handler thread_func]))) =
     [Dispatched 0 (sentence 5), Executed 0 (sentence 5), Success (PInt 5)]"
  using
    handler_failure_goes_to_error_callback
      [of 1 "run [Call (AddRequests (One (Dict no_text))), Step 0, Step 0, Step 0, Step 0, Step 0, Step 0]
               (new_pool [Handler thread_func])" 0 no_text "[Step 0]" "''KeyError: text''"
          PNone 1
          "run [Call (AddRequests (One (Dict no_text))), Step 0, Step 0, Step 0, Step 0, Step 0, Step 0, Step 1]
               (new_pool [Handler thread_func])" "Exc ''KeyError: text''"]
    handler_failure_goes_to_error_callback
      [of 1 "run [Call (AddRequests (One (Dict (sentence 5)))), Step 0, Step 0, Step 0, Step 0, Step 0, Step 0]
               (new_pool [Handler thread_func])" 0 "sentence 5" "[Step 0]" "[]" "PInt 5"
          0 "new_pool []" "Exc []"]
  by (simp add: evals no_text_def)

subsection \<open>Construction\<close>

text \<open>
  C5 (as stated). Constructing the pool with an empty worker list fails with a
  configuration error. The code accepts the empty list: the constructor returns a pool
  with no slot.
\<close>

theorem init_accepts_empty_list:
  "init [(''THREADS'', [])] = Inr (new_pool []) \<and> thread_count (new_pool []) = 0"
  by (simp add: init_def new_pool_def)

text \<open>
  C5 (amended). Constructing the pool without the \<^verbatim>\<open>THREADS\<close> option fails with
  \<^verbatim>\<open>ValueError\<close>, raised to the constructor's caller; constructing it with a list of N
  handlers, N = 0 included, succeeds and fixes the slot count at N, all N slots free.
\<close>

theorem init_fails_without_THREADS_only:
  "(map_of options ''THREADS'' = None \<longrightarrow>
      init options = Inl (ValueError ''THREADS param must be defined'')) \<and>
   (map_of options ''THREADS'' = Some ths \<longrightarrow>
      init options = Inr (new_pool ths) \<and> THREADS (new_pool ths) = ths \<and>
      thread_count (new_pool ths) = length ths \<and>
      get_free_threads (new_pool ths) = [0..<length ths])"
  by (simp add: init_def new_pool_def get_free_threads_def)

theorem init_fails_without_THREADS_only_witness:
  "init [] = Inl (ValueError ''THREADS param must be defined'') \<and>
   init [(''THREADS'', [Handler thread_func, Handler thread_func])] =
     Inr (new_pool [Handler thread_func, Handler thread_func]) \<and>
   thread_count (new_pool [Handler thread_func, Handler thread_func]) = 2 \<and>
   get_free_threads (new_pool [Handler thread_func, Handler thread_func]) = [0, 1]"
  using init_fails_without_THREADS_only [of "[]" "[]"]
    init_fails_without_THREADS_only
      [of "[(''THREADS'', [Handler thread_func, Handler thread_func])]"
          "[Handler thread_func, Handler thread_func]"]
  by (simp add: upt_rec)

subsection \<open>Submission\<close>

text \<open>
  C6. On every submission, each task whose \<^verbatim>\<open>func\<close> is not callable is dropped before
  it reaches the queue, with no exception raised, and the tasks whose \<^verbatim>\<open>func\<close> is
  callable are enqueued in submission order. For a list \<open>rs\<close> of request dicts and for a
  single request dict \<open>r\<close>: \<open>add_requests\<close> raises nothing, and the queue afterwards is
  the queue before followed by the requests with a callable \<^verbatim>\<open>func\<close>, in their order;
  the pool is running afterwards.
\<close>

theorem add_requests_drops_non_callable:
  "fst (add_requests (Many (map Dict rs)) s) = None \<and>
   UNHANDLED (snd (add_requests (Many (map Dict rs)) s)) =
     UNHANDLED s @ filter (\<lambda>r. callable_f (func r)) rs \<and>
   fst (add_requests (One (Dict r)) s) = None \<and>
   UNHANDLED (snd (add_requests (One (Dict r)) s)) =
     UNHANDLED s @ filter (\<lambda>r. callable_f (func r)) [r] \<and>
   running (snd (add_requests (Many (map Dict rs)) s)) \<and>
   running (snd (add_requests (One (Dict r)) s))"
  using add_requests_loop_dicts[of rs s] add_requests_loop_dicts[of "[r]" s]
  by (simp add: add_requests_def Start_def del: add_requests_loop.simps)

subsection \<open>The lifecycle of one task\<close>

text \<open>
  C7. Within one task's lifecycle the order is: dispatch, execution, completion callback
  (SUCCESS or ERROR), slot freed, drain check; the slot is not freed until the callback
  has returned. Let request \<open>r\<close> be dispatched to slot \<open>idx\<close> in state \<open>s\<close>, which
  starts a new worker thread \<open>w\<close>, and let the other threads and outside callers act as
  they like before and between the worker's first four actions (\<open>sch0\<close>, \<open>sch1\<close>,
  \<open>sch2\<close>, \<open>sch3\<close>). When the handler returns \<open>v\<close> and the SUCCESS callback returns,
  the events of the task are, in this order: the dispatch, the handler's call, the
  SUCCESS callback, the freeing of the slot, the drain check. When the handler raises
  \<open>Exc m\<close> they are the same with the ERROR callback in place of SUCCESS. A worker's
  actions before the freeing (the handler's call and the callbacks) leave the busy list
  as it is; the freeing removes the entries of the slot.
\<close>

theorem task_lifecycle_order:
  assumes "w = length (threads s)" and "task_events w s = []"
    and "others w sch0" and "others w sch1" and "others w sch2" and "others w sch3"
  shows
   "(call_handler (THREADS s) idx r = Returned v \<and> request_success_callback s v = None \<longrightarrow>
       task_events w
         (run (sch0 @ Step w # sch1 @ Step w # sch2 @ Step w # sch3 @ [Step w])
            (handle_request r idx s)) =
       [Dispatched idx r, Executed idx r, Success v, Freed idx,
        DrainChecked (checkIfDone
          (run (sch0 @ Step w # sch1 @ Step w # sch2 @ Step w # sch3)
             (handle_request r idx s)))]) \<and>
    (call_handler (THREADS s) idx r = Raised (Exc m) \<longrightarrow>
       task_events w
         (run (sch0 @ Step w # sch1 @ Step w # sch2 @ Step w # sch3 @ [Step w])
            (handle_request r idx s)) =
       [Dispatched idx r, Executed idx r, Error \<lparr> req = r, error = Exc m \<rparr>, Freed idx,
        DrainChecked (checkIfDone
          (run (sch0 @ Step w # sch1 @ Step w # sch2 @ Step w # sch3)
             (handle_request r idx s)))]) \<and>
    (t < length (threads u) \<and> threads u ! t = Worker idx r pc \<and> before_free pc \<longrightarrow>
       BUSY_THREADS (exec (Step t) u) = BUSY_THREADS u) \<and>
    (t < length (threads u) \<and> threads u ! t = Worker idx r WFree \<longrightarrow>
       BUSY_THREADS (exec (Step t) u) = filter (\<lambda>b. index b \<noteq> idx) (BUSY_THREADS u))"
proof -
  note o = assms(3)[unfolded assms(1)]
  note new = assms(2)[unfolded assms(1)]
  have ok: "task_events w
         (run (sch0 @ Step w # sch1 @ Step w # sch2 @ Step w # sch3 @ [Step w])
            (handle_request r idx s)) =
       [Dispatched idx r, Executed idx r, Success v, Freed idx,
        DrainChecked (checkIfDone
          (run (sch0 @ Step w # sch1 @ Step w # sch2 @ Step w # sch3)
             (handle_request r idx s)))]"
    if h: "call_handler (THREADS s) idx r = Returned v" "request_success_callback s v = None"
  proof -
    from lifecycle_head[OF new o, of idx r] h(1)
    have "worker_at w idx r (WSuccessCb v) [Dispatched idx r, Executed idx r] s
            (run (sch0 @ [Step w]) (handle_request r idx s))"
      by (simp add: assms(1))
    from lifecycle_tail[OF success_callback_after_call[OF assms(4) this h(2)] assms(5,6)]
    show ?thesis by simp
  qed
  have err: "task_events w
         (run (sch0 @ Step w # sch1 @ Step w # sch2 @ Step w # sch3 @ [Step w])
            (handle_request r idx s)) =
       [Dispatched idx r, Executed idx r, Error \<lparr> req = r, error = Exc m \<rparr>, Freed idx,
        DrainChecked (checkIfDone
          (run (sch0 @ Step w # sch1 @ Step w # sch2 @ Step w # sch3)
             (handle_request r idx s)))]"
    if h: "call_handler (THREADS s) idx r = Raised (Exc m)"
  proof -
    from lifecycle_head[OF new o, of idx r] h
    have "worker_at w idx r (WErrorCb (Exc m)) [Dispatched idx r, Executed idx r] s
            (run (sch0 @ [Step w]) (handle_request r idx s))"
      by (simp add: assms(1))
    from lifecycle_tail[OF error_callback_after_call[OF assms(4) this] assms(5,6)]
    show ?thesis by simp
  qed
  have free: "BUSY_THREADS (exec (Step t) u) = filter (\<lambda>b. index b \<noteq> idx) (BUSY_THREADS u)"
    if "t < length (threads u)" "threads u ! t = Worker idx r WFree"
    using that by (simp add: set_thread_def emit_def)
  from ok err before_free_keeps_busy[of t u idx r pc] free show ?thesis by blast
qed

theorem task_lifecycle_order_witness:
  "task_events 0
     (run [Call (AddRequests (One (Dict (sentence 2)))), Step 0, Step 0, Step 1, Step 0, Step 0]
        (handle_request (sentence 1) 0 (new_pool [Handler thread_func]))) =
     [Dispatched 0 (sentence 1), Executed 0 (sentence 1), Success (PInt 1), Freed 0,
      DrainChecked False] \<and>
   task_events 0
     (run [Step 0, Step 0, Step 0, Step 0]
        (handle_request no_text 0 (new_pool [Handler thread_func]))) =
     [Dispatched 0 no_text, Executed 0 no_text,
      Error \<lparr> req = no_text, error = Exc ''KeyError: text'' \<rparr>, Freed 0, DrainChecked True] \<and>
   map index (BUSY_THREADS (exec (Step 0)
     (handle_request (sentence 1) 0 (new_pool [Handler thread_func])))) = [0] \<and>
   BUSY_THREADS (exec (Step 0) (run [Step 0, Step 0]
     (handle_request (sentence 1) 0 (new_pool [Handler thread_func])))) = []"
  using
    task_lifecycle_order
      [of 0 "new_pool [Handler thread_func]" "[Call (AddRequests (One (Dict (sentence 2))))]"
          "[]" "[Step 1]" "[]" 0 "sentence 1" "PInt 1" "[]"
          0 "handle_request (sentence 1) 0 (new_pool [Handler thread_func])" WCall]
    task_lifecycle_order
      [of 0 "new_pool [Handler thread_func]" "[]" "[]" "[]" "[]" 0 no_text PNone
          "''KeyError: text''"
          0 "run [Step 0, Step 0] (handle_request no_text 0 (new_pool [Handler thread_func]))"
          WFree]
    task_lifecycle_order
      [of 0 "new_pool [Handler thread_func]" "[]" "[]" "[]" "[]" 0 "sentence 1" "PInt 1"
          "[]"
          0 "run [Step 0, Step 0] (handle_request (sentence 1) 0 (new_pool [Handler thread_func]))"
          WFree]
  by (simp add: evals no_text_def)

subsection \<open>Stop with a task in flight\<close>

text \<open>
  C8 (as stated). Calling \<open>Stop\<close> while one task is in flight and two are pending
  leaves the two pending tasks in the queue, undispatched until a later start or
  submission. The code allows otherwise: with one request in flight on slot 0 and two
  pending, \<open>Stop\<close> is called while the dispatcher sleeps inside its iteration; the
  request in flight completes first, and the dispatcher, which tests \<^verbatim>\<open>running\<close> only at
  the top of its loop, wakes, finds slot 0 free and dispatches the second request, with no
  start and no submission after the stop. One request is left in the queue.
\<close>

theorem stop_does_not_hold_back_sleeping_dispatcher:
  "map index (BUSY_THREADS (run one_in_flight (new_pool [Handler thread_func]))) = [0] \<and>
   UNHANDLED (run one_in_flight (new_pool [Handler thread_func])) = [sentence 2, sentence 3] \<and>
   quiet stop_task_first \<and>
   UNHANDLED (run (one_in_flight @ stop_task_first) (new_pool [Handler thread_func])) =
     [sentence 3] \<and>
   dispatches (run (one_in_flight @ stop_task_first) (new_pool [Handler thread_func])) =
     [Dispatched 0 (sentence 1), Dispatched 0 (sentence 2)] \<and>
   \<not> running (run (one_in_flight @ stop_task_first) (new_pool [Handler thread_func]))"
  by (simp add: one_in_flight_def stop_task_first_def quiet_def evals)

text \<open>
  C8 (amended). Let \<open>d\<close> be the only dispatcher thread and let \<open>Stop\<close> be called from
  outside in state \<open>s\<close> (the caller is thread \<open>c\<close>). The call and its first action
  clear \<^verbatim>\<open>running\<close> and change no thread, nor the busy list, the queue or the trace: no
  execution in flight is cancelled. A worker \<open>w\<close> about to call its handler still calls
  it after the stop and then calls the SUCCESS callback with the value returned, or the
  ERROR callback with the exception raised, whatever the other threads do in between
  (\<open>ta\<close>, \<open>tb\<close>). The dispatcher tests \<^verbatim>\<open>running\<close> only at its \<^verbatim>\<open>while\<close> test,
  where it exits if \<^verbatim>\<open>running\<close> is false and goes to sleep otherwise: if it
  is there when \<open>Stop\<close> is called, it exits at its next action and dispatches nothing;
  if it is inside an iteration, it first finishes the iteration, dispatching the head of
  the queue to the slots it still has to visit; if it is asleep before its poll, it
  finishes the iteration with the slots that are free when it wakes. In each case it then
  exits, and from then on the requests still pending remain in the queue and none is
  dispatched, whatever the threads do, until a later start or submission (\<open>sa\<close>, \<open>sp\<close>
  and \<open>sb\<close> hold no submission and no start).
\<close>

theorem stop_leaves_in_flight_and_pending:
  assumes "d < length (threads s)" and "other_dispatchers d s = []"
    and "c = length (threads s)"
  shows
   "\<not> running (run [Call StopCall, Step c] s) \<and>
    take c (threads (run [Call StopCall, Step c] s)) = threads s \<and>
    BUSY_THREADS (run [Call StopCall, Step c] s) = BUSY_THREADS s \<and>
    UNHANDLED (run [Call StopCall, Step c] s) = UNHANDLED s \<and>
    trace (run [Call StopCall, Step c] s) = trace s \<and>
    (w < c \<and> threads s ! w = Worker idx r WCall \<and> others w ta \<and> others w tb \<and>
     call_handler (THREADS s) idx r = Returned v \<longrightarrow>
       task_events w (run (Call StopCall # Step c # ta @ Step w # tb @ [Step w]) s) =
         task_events w s @ [Executed idx r, Success v]) \<and>
    (w < c \<and> threads s ! w = Worker idx r WCall \<and> others w ta \<and> others w tb \<and>
     call_handler (THREADS s) idx r = Raised (Exc m) \<longrightarrow>
       task_events w (run (Call StopCall # Step c # ta @ Step w # tb @ [Step w]) s) =
         task_events w s @ [Executed idx r, Error \<lparr> req = r, error = Exc m \<rparr>]) \<and>
    (t < length (threads u) \<and> threads u ! t = Dispatcher DLoop \<longrightarrow>
       exec (Step t) u = set_thread t (if running u then Dispatcher DPoll else Exited) u) \<and>
    (threads s ! d = Dispatcher DLoop \<and> quiet sa \<and> others d sa \<and> quiet sb \<longrightarrow>
       UNHANDLED (run (Call StopCall # Step c # sa @ Step d # sb) s) = UNHANDLED s \<and>
       dispatches (run (Call StopCall # Step c # sa @ Step d # sb) s) = dispatches s \<and>
       dispatchers (run (Call StopCall # Step c # sa @ Step d # sb) s) = []) \<and>
    (threads s ! d = Dispatcher pc \<and> in_pass pc (UNHANDLED s) \<and> quiet sa \<and>
     length (filter (moves d) sa) = steps_left pc (length (UNHANDLED s)) \<and> quiet sb \<longrightarrow>
       UNHANDLED (run (Call StopCall # Step c # sa @ Step d # sb) s) =
         queue_after pc (UNHANDLED s) \<and>
       dispatches (run (Call StopCall # Step c # sa @ Step d # sb) s) =
         dispatches s @ map (\<lambda>(i, r). Dispatched i r) (to_dispatch pc (UNHANDLED s)) \<and>
       dispatchers (run (Call StopCall # Step c # sa @ Step d # sb) s) = []) \<and>
    (threads s ! d = Dispatcher DPoll \<and> quiet sa \<and> others d sa \<and> quiet sp \<and>
     length (filter (moves d) sp) =
       steps_left (DCheck (get_free_threads (run (Call StopCall # Step c # sa) s)))
         (length (UNHANDLED s)) \<and>
     quiet sb \<longrightarrow>
       UNHANDLED (run (Call StopCall # Step c # sa @ Step d # sp @ Step d # sb) s) =
         drop (length (get_free_threads (run (Call StopCall # Step c # sa) s))) (UNHANDLED s) \<and>
       dispatches (run (Call StopCall # Step c # sa @ Step d # sp @ Step d # sb) s) =
         dispatches s @
         map (\<lambda>(i, r). Dispatched i r)
           (zip (get_free_threads (run (Call StopCall # Step c # sa) s)) (UNHANDLED s)) \<and>
       dispatchers (run (Call StopCall # Step c # sa @ Step d # sp @ Step d # sb) s) = [])"
proof -
  let ?s1 = "run [Call StopCall, Step c] s"
  have cd: "c \<noteq> d" using assms(1,3) by simp
  have q0: "quiet [Call StopCall, Step c]" "others d [Call StopCall, Step c]"
    using cd by (simp_all add: quiet_def others_def)
  have called: "\<not> running ?s1 \<and> take c (threads ?s1) = threads s \<and>
      BUSY_THREADS ?s1 = BUSY_THREADS s \<and> UNHANDLED ?s1 = UNHANDLED s \<and>
      trace ?s1 = trace s"
    using assms(3) by (simp add: set_thread_def)
  have test: "exec (Step t) u =
      set_thread t (if running u then Dispatcher DPoll else Exited) u"
    if "t < length (threads u)" "threads u ! t = Dispatcher DLoop"
    using that by simp
  have nr: "\<not> running ?s1" using called by blast
  have flight_ok: "task_events w (run (Call StopCall # Step c # ta @ Step w # tb @ [Step w]) s) =
         task_events w s @ [Executed idx r, Success v]"
    if h: "w < c" "threads s ! w = Worker idx r WCall" "others w ta" "others w tb"
      "call_handler (THREADS s) idx r = Returned v"
  proof -
    have o: "others w (Call StopCall # Step c # ta)"
      using h(1,3) by (simp add: others_def)
    have w: "w < length (threads s)" using h(1) assms(3) by simp
    note u = untouched_run[OF w o]
    let ?s2 = "run (Call StopCall # Step c # ta) s"
    from u w h(2,5) have
      "w < length (threads ?s2)" "threads ?s2 ! w = Worker idx r WCall"
      "call_handler (THREADS ?s2) idx r = Returned v" "task_events w ?s2 = task_events w s"
      by (simp_all add: untouched_def del: run.simps)
    from call_then_callback(2)[OF this(1,2) h(4) this(3)] this(4)
    have "task_events w (run (Step w # tb @ [Step w]) ?s2) =
            task_events w s @ [Executed idx r, Success v]"
      by (simp del: run.simps)
    moreover have "run (Call StopCall # Step c # ta @ Step w # tb @ [Step w]) s =
                   run (Step w # tb @ [Step w]) ?s2"
      using run_append[of "Call StopCall # Step c # ta" "Step w # tb @ [Step w]" s] by simp
    ultimately show ?thesis by (simp del: run.simps)
  qed
  have flight_err: "task_events w (run (Call StopCall # Step c # ta @ Step w # tb @ [Step w]) s) =
         task_events w s @ [Executed idx r, Error \<lparr> req = r, error = Exc m \<rparr>]"
    if h: "w < c" "threads s ! w = Worker idx r WCall" "others w ta" "others w tb"
      "call_handler (THREADS s) idx r = Raised (Exc m)"
  proof -
    have o: "others w (Call StopCall # Step c # ta)"
      using h(1,3) by (simp add: others_def)
    have w: "w < length (threads s)" using h(1) assms(3) by simp
    note u = untouched_run[OF w o]
    let ?s2 = "run (Call StopCall # Step c # ta) s"
    from u w h(2,5) have
      "w < length (threads ?s2)" "threads ?s2 ! w = Worker idx r WCall"
      "call_handler (THREADS ?s2) idx r = Raised (Exc m)"
      "task_events w ?s2 = task_events w s"
      by (simp_all add: untouched_def del: run.simps)
    from call_then_callback(1)[OF this(1,2) h(4) this(3)] this(4)
    have "task_events w (run (Step w # tb @ [Step w]) ?s2) =
            task_events w s @ [Executed idx r, Error \<lparr> req = r, error = Exc m \<rparr>]"
      by (simp del: run.simps)
    moreover have "run (Call StopCall # Step c # ta @ Step w # tb @ [Step w]) s =
                   run (Step w # tb @ [Step w]) ?s2"
      using run_append[of "Call StopCall # Step c # ta" "Step w # tb @ [Step w]" s] by simp
    ultimately show ?thesis by (simp del: run.simps)
  qed
  have inside: "UNHANDLED (run (Call StopCall # Step c # sa @ Step d # sb) s) =
         queue_after pc (UNHANDLED s) \<and>
       dispatches (run (Call StopCall # Step c # sa @ Step d # sb) s) =
         dispatches s @ map (\<lambda>(i, r). Dispatched i r) (to_dispatch pc (UNHANDLED s)) \<and>
       dispatchers (run (Call StopCall # Step c # sa @ Step d # sb) s) = []"
    if h: "threads s ! d = Dispatcher pc" "in_pass pc (UNHANDLED s)" "quiet sa"
      "length (filter (moves d) sa) = steps_left pc (length (UNHANDLED s))" "quiet sb"
    for pc sa
  proof -
    note b = run_bystanders[OF assms(1) h(1) assms(2) q0]
    from b h(2,4) have 1: "d < length (threads ?s1)" "threads ?s1 ! d = Dispatcher pc"
      "in_pass pc (UNHANDLED ?s1)" "other_dispatchers d ?s1 = []"
      "length (filter (moves d) sa) = steps_left pc (length (UNHANDLED ?s1))"
      by (simp_all del: run.simps)
    have "run (Call StopCall # Step c # sa @ Step d # sb) s = run (sa @ Step d # sb) ?s1"
      by simp
    with stopped_pass[OF 1(1-4) nr h(3) 1(5) h(5)] b show ?thesis
      by (simp del: run.simps)
  qed
  have at_test: "UNHANDLED (run (Call StopCall # Step c # sa @ Step d # sb) s) = UNHANDLED s \<and>
       dispatches (run (Call StopCall # Step c # sa @ Step d # sb) s) = dispatches s \<and>
       dispatchers (run (Call StopCall # Step c # sa @ Step d # sb) s) = []"
    if h: "threads s ! d = Dispatcher DLoop" "quiet sa" "others d sa" "quiet sb"
    using inside[OF h(1) _ h(2) _ h(4)] others_no_moves[OF h(3)] by simp
  have asleep:
    "UNHANDLED (run (Call StopCall # Step c # sa @ Step d # sp @ Step d # sb) s) =
         drop (length (get_free_threads (run (Call StopCall # Step c # sa) s))) (UNHANDLED s) \<and>
       dispatches (run (Call StopCall # Step c # sa @ Step d # sp @ Step d # sb) s) =
         dispatches s @
         map (\<lambda>(i, r). Dispatched i r)
           (zip (get_free_threads (run (Call StopCall # Step c # sa) s)) (UNHANDLED s)) \<and>
       dispatchers (run (Call StopCall # Step c # sa @ Step d # sp @ Step d # sb) s) = []"
    if h: "threads s ! d = Dispatcher DPoll" "quiet sa" "others d sa" "quiet sp"
      "length (filter (moves d) sp) =
         steps_left (DCheck (get_free_threads (run (Call StopCall # Step c # sa) s)))
           (length (UNHANDLED s))"
      "quiet sb"
  proof -
    let ?s2 = "run (Call StopCall # Step c # sa) s"
    let ?free = "get_free_threads ?s2"
    let ?s3 = "exec (Step d) ?s2"
    have q: "quiet (Call StopCall # Step c # sa)" "others d (Call StopCall # Step c # sa)"
      using h(2,3) cd by (simp_all add: quiet_def others_def)
    note b = run_bystanders[OF assms(1) h(1) assms(2) q]
    have s2: "run (Call StopCall # Step c # sa) s = run sa ?s1" by simp
    have nr2: "\<not> running ?s2"
      unfolding s2
      using run_bystanders[OF _ _ _ h(2,3), of ?s1 DPoll]
        run_bystanders[OF assms(1) h(1) assms(2) q0] nr
      by (simp del: run.simps)
    from b have 3: "d < length (threads ?s3)" "threads ?s3 ! d = Dispatcher (DCheck ?free)"
      "in_pass (DCheck ?free) (UNHANDLED ?s3)" "other_dispatchers d ?s3 = []"
      "UNHANDLED ?s3 = UNHANDLED s" "dispatches ?s3 = dispatches s"
      by (simp_all add: set_thread_def other_dispatchers_def dispatches_def events_def
          del: run.simps)
    from nr2 b have nr3: "\<not> running ?s3" by (simp add: set_thread_def del: run.simps)
    from h(5) 3(5) have n: "length (filter (moves d) sp) =
        steps_left (DCheck ?free) (length (UNHANDLED ?s3))"
      by (simp del: run.simps)
    have "run (Call StopCall # Step c # sa @ Step d # sp @ Step d # sb) s =
          run (sp @ Step d # sb) ?s3"
      using run_append[of "Call StopCall # Step c # sa" "Step d # sp @ Step d # sb" s]
      by (simp del: exec.simps)
    with stopped_pass[OF 3(1-4) nr3 h(4) n h(6)] 3(5,6) show ?thesis
      by (simp del: run.simps exec.simps)
  qed
  from called test flight_ok flight_err at_test inside[of pc sa] asleep show ?thesis by blast
qed

theorem stop_leaves_in_flight_and_pending_witness:
  "\<not> running (run [Call StopCall, Step 2] (run one_in_flight (new_pool [Handler thread_func]))) \<and>
   task_events 1
     (run [Call StopCall, Step 2, Step 2, Step 1, Step 0, Step 1]
        (run one_in_flight (new_pool [Handler thread_func]))) =
     [Dispatched 0 (sentence 1), Executed 0 (sentence 1), Success (PInt 1)] \<and>
   task_events 1
     (run [Call StopCall, Step 2, Step 1, Step 1]
        (run [Call (AddRequests (One (Dict no_text))), Step 0, Step 0, Step 0, Step 0, Step 0,
              Step 0, Step 0]
           (new_pool [Handler thread_func]))) =
     [Dispatched 0 no_text, Executed 0 no_text,
      Error \<lparr> req = no_text, error = Exc ''KeyError: text'' \<rparr>] \<and>
   UNHANDLED
     (run [Call StopCall, Step 2, Step 2, Step 0, Step 1, Step 1, Step 1, Step 1]
        (run [Call (AddRequests (Many [Dict (sentence 1), Dict (sentence 2),
                Dict (sentence 3)])),
              Step 0, Step 0, Step 0, Step 0, Step 0, Step 0, Step 0]
           (new_pool [Handler thread_func]))) = [sentence 2, sentence 3] \<and>
   dispatchers
     (run [Call StopCall, Step 2, Step 2, Step 0, Step 1, Step 1, Step 1, Step 1]
        (run [Call (AddRequests (Many [Dict (sentence 1), Dict (sentence 2),
                Dict (sentence 3)])),
              Step 0, Step 0, Step 0, Step 0, Step 0, Step 0, Step 0]
           (new_pool [Handler thread_func]))) = [] \<and>
   UNHANDLED
     (run [Call StopCall, Step 2, Step 2, Step 1, Step 1, Step 1, Step 1,
           Step 0, Step 0, Step 0, Step 0, Step 0, Step 0, Step 0, Step 2, Step 2]
        (run one_in_flight (new_pool [Handler thread_func]))) = [sentence 3] \<and>
   dispatchers
     (run [Call StopCall, Step 2, Step 2, Step 1, Step 1, Step 1, Step 1,
           Step 0, Step 0, Step 0, Step 0, Step 0, Step 0, Step 0, Step 2, Step 2]
        (run one_in_flight (new_pool [Handler thread_func]))) = [] \<and>
   UNHANDLED
     (run [Call StopCall, Step 2, Step 2, Step 0, Step 0, Step 0, Step 1, Step 1, Step 1, Step 1]
        (run one_in_flight (new_pool [Handler thread_func]))) = [sentence 2, sentence 3] \<and>
   threads
     (exec (Step 0)
        (run [Call (AddRequests (One (Dict no_text))), Step 0, Step 0, Step 0, Step 0, Step 0,
              Step 0, Step 0]
           (new_pool [Handler thread_func]))) =
     [Dispatcher DPoll, Worker 0 no_text WCall]"
  using
    stop_leaves_in_flight_and_pending
      [where d = 0 and s = "run one_in_flight (new_pool [Handler thread_func])" and c = 2
         and w = 1 and idx = 0 and r = "sentence 1" and ta = "[Step 2]" and tb = "[Step 0]"
         and v = "PInt 1" and m = "[]" and t = 0
         and u = "run [Call StopCall, Step 2] (run one_in_flight (new_pool [Handler thread_func]))"
         and sa = "[Step 2, Step 1, Step 1, Step 1, Step 1]" and sb = "[Step 2, Step 2]"
         and pc = DLoop and sp = "[Step 0, Step 0, Step 0, Step 0, Step 0]"]
    stop_leaves_in_flight_and_pending
      [where d = 0
         and s = "run [Call (AddRequests (One (Dict no_text))), Step 0, Step 0, Step 0, Step 0,
                       Step 0, Step 0, Step 0]
                    (new_pool [Handler thread_func])"
         and c = 2 and w = 1 and idx = 0 and r = no_text and ta = "[]" and tb = "[]"
         and v = PNone and m = "''KeyError: text''" and t = 0
         and u = "run [Call (AddRequests (One (Dict no_text))), Step 0, Step 0, Step 0, Step 0,
                       Step 0, Step 0, Step 0]
                    (new_pool [Handler thread_func])"
         and sa = "[]" and sb = "[]" and pc = DLoop and sp = "[]"]
    stop_leaves_in_flight_and_pending
      [where d = 0
         and s = "run [Call (AddRequests (Many [Dict (sentence 1), Dict (sentence 2),
                         Dict (sentence 3)])),
                       Step 0, Step 0, Step 0, Step 0, Step 0, Step 0, Step 0]
                    (new_pool [Handler thread_func])"
         and c = 2 and w = 1 and idx = 0 and r = "sentence 1" and ta = "[]" and tb = "[]"
         and v = "PInt 1" and m = "[]" and t = 0
         and u = "run [Call (AddRequests (Many [Dict (sentence 1), Dict (sentence 2),
                         Dict (sentence 3)])),
                       Step 0, Step 0, Step 0, Step 0, Step 0, Step 0, Step 0]
                    (new_pool [Handler thread_func])"
         and sa = "[Step 2]" and sb = "[Step 1, Step 1, Step 1, Step 1]" and pc = DLoop
         and sp = "[]"]
    stop_leaves_in_flight_and_pending
      [where d = 0 and s = "run one_in_flight (new_pool [Handler thread_func])" and c = 2
         and w = 1 and idx = 0 and r = "sentence 1" and ta = "[]" and tb = "[]"
         and v = "PInt 1" and m = "[]" and t = 0
         and u = "run one_in_flight (new_pool [Handler thread_func])"
         and sa = "[Step 2]" and sb = "[Step 1, Step 1, Step 1, Step 1]" and pc = DPoll
         and sp = "[Step 0, Step 0]"]
  by (simp add: one_in_flight_def no_text_def evals)

subsection \<open>Adding workers\<close>

text \<open>
  C9. \<open>add_threads\<close> with one handler or a list of handlers appends worker capacity.
  The code does not: \<^verbatim>\<open>self.THREADS.put(t)\<close> is called on a list, so the call raises
  \<^verbatim>\<open>AttributeError\<close> at the first handler it is given, and whatever it is given the pool
  is left as it was (its handlers, its slot count and its free slots).
\<close>

theorem add_threads_raises_and_adds_nothing:
  "snd (add_threads Threads s) = s \<and>
   get_free_threads (snd (add_threads Threads s)) = get_free_threads s \<and>
   fst (add_threads (One (Handler h)) s) =
     Some (AttributeError ''list object has no attribute put'') \<and>
   fst (add_threads (Many (Handler h # ts)) s) =
     Some (AttributeError ''list object has no attribute put'') \<and>
   thread_count (snd (add_threads (One (Handler thread_func)) (new_pool [Handler thread_func]))) = 1"
  by (simp add: add_threads_def add_threads_loop_same new_pool_def)

subsection \<open>What a worker executes\<close>

text \<open>
  C10. Executing a dispatched task is calling the handler of its slot with the whole
  request as the only argument; the pool never calls the request's own \<^verbatim>\<open>func\<close>, and
  SUCCESS receives what the slot's handler returns. Let thread \<open>w\<close> be a worker about to
  execute request \<open>r\<close> on slot \<open>idx\<close>, whose handler is \<open>h\<close>. The outcome of the
  execution is \<open>h r\<close>, the handler applied to the request; the worker's first action
  records that call, moves the worker on as \<open>h r\<close> demands, and changes nothing else,
  whatever \<open>func r\<close> is. When \<open>h r\<close> returns \<open>v\<close>, the worker's next action, whatever
  the other threads do in between (\<open>sch\<close>), calls the SUCCESS callback with \<open>v\<close>.
\<close>

theorem worker_calls_slot_handler_with_request:
  assumes "w < length (threads s)" and "threads s ! w = Worker idx r WCall"
    and "idx < length (THREADS s)" and "THREADS s ! idx = Handler h" and "others w sch"
  shows
   "call_handler (THREADS s) idx r = h r \<and>
    exec (Step w) s =
      s\<lparr> threads := (threads s)[w := Worker idx r (after_call (h r))],
         trace := trace s @ [(w, Executed idx r)] \<rparr> \<and>
    (h r = Returned v \<longrightarrow>
       task_events w (run (Step w # sch @ [Step w]) s) =
         task_events w s @ [Executed idx r, Success v])"
proof -
  have h: "call_handler (THREADS s) idx r = h r"
    using assms(3,4) by (simp add: call_handler_def)
  have ok: "task_events w (run (Step w # sch @ [Step w]) s) =
              task_events w s @ [Executed idx r, Success v]"
    if "h r = Returned v"
    using call_then_callback(2)[OF assms(1,2,5), of v] h that by simp
  have frame: "exec (Step w) s =
      s\<lparr> threads := (threads s)[w := Worker idx r (after_call (h r))],
         trace := trace s @ [(w, Executed idx r)] \<rparr>"
    using assms(1,2) h by (simp add: set_thread_def emit_def)
  from h ok frame show ?thesis by blast
qed

theorem worker_calls_slot_handler_with_request_witness:
  "raising_func (params trap) = Raised (Exc ''func was called'') \<and>
   task_events 1 (run [Step 1, Step 0, Step 1]
      (run [Call (AddRequests (One (Dict trap))), Step 0, Step 0, Step 0, Step 0, Step 0, Step 0]
         (new_pool [Handler returns_params]))) =
     [Dispatched 0 trap, Executed 0 trap, Success (PInt 7)]"
  using worker_calls_slot_handler_with_request
      [of 1 "run [Call (AddRequests (One (Dict trap))), Step 0, Step 0, Step 0, Step 0, Step 0, Step 0]
               (new_pool [Handler returns_params])" 0 trap returns_params "[Step 0]" "PInt 7"]
  by (simp add: evals trap_def)

end
